theory Spec2Isabelle
  imports
    Complex_Main
    "HOL-Library.Product_Lexorder"
    "HOL-Library.Multiset"
    "HOL-Library.AList"
begin

section \<open>Common: Python errors and floats\<close>

datatype error = ValueError | KeyError | IndexError | ZeroDivisionError | OverflowError

text \<open>
  A Python \<^verbatim>\<open>float\<close> is an IEEE 754 binary64 number: a finite value (a rational
  \<open>m * 2 ^ e\<close> with \<open>\<bar>m\<bar> < 2 ^ 53\<close> and \<open>- 1074 \<le> e\<close>, below \<open>2 ^ 1024\<close> in magnitude),
  \<^verbatim>\<open>inf\<close>, \<^verbatim>\<open>-inf\<close> or \<^verbatim>\<open>nan\<close>.  The two zeros \<^verbatim>\<open>0.0\<close> and \<^verbatim>\<open>-0.0\<close> are one
  value here: they compare equal, and no comparison or sum of the programs below
  tells one from the other.  The type has more finite values than there are floats;
  \<open>round_double\<close> maps every rational to a float, and the floats are the values that it
  leaves as they are.
\<close>

datatype pyfloat = Finite rat | PInf | NInf | NaN

text \<open>
  The order of the extended numbers, with \<^verbatim>\<open>nan\<close> put above everything so that it is
  linear.  It is what the specifications are written with; the comparisons the
  programs evaluate are \<open>float_lt\<close>, \<open>float_le\<close> and \<open>float_eq\<close> below, which are
  false as soon as an operand is \<^verbatim>\<open>nan\<close>.
\<close>

instantiation pyfloat :: linorder
begin

fun less_eq_pyfloat :: "pyfloat \<Rightarrow> pyfloat \<Rightarrow> bool" where
  "less_eq_pyfloat NInf _ = True"
| "less_eq_pyfloat _ NaN = True"
| "less_eq_pyfloat NaN _ = False"
| "less_eq_pyfloat _ NInf = False"
| "less_eq_pyfloat PInf PInf = True"
| "less_eq_pyfloat PInf (Finite _) = False"
| "less_eq_pyfloat (Finite _) PInf = True"
| "less_eq_pyfloat (Finite a) (Finite b) = (a \<le> b)"

definition less_pyfloat :: "pyfloat \<Rightarrow> pyfloat \<Rightarrow> bool" where
  "less_pyfloat x y = (x \<le> y \<and> \<not> y \<le> x)"

instance
proof
  fix x y z :: pyfloat
  show "(x < y) = (x \<le> y \<and> \<not> y \<le> x)"
    by (simp add: less_pyfloat_def)
  show "x \<le> x"
    by (cases x) simp_all
  show "x \<le> y \<Longrightarrow> y \<le> z \<Longrightarrow> x \<le> z"
    by (cases x; cases y; cases z) simp_all
  show "x \<le> y \<Longrightarrow> y \<le> x \<Longrightarrow> x = y"
    by (cases x; cases y) simp_all
  show "x \<le> y \<or> y \<le> x"
    by (cases x; cases y) auto
qed

end

text \<open>Python's \<^verbatim>\<open>a < b\<close>, \<^verbatim>\<open>a <= b\<close> and \<^verbatim>\<open>a == b\<close> on floats.\<close>

definition float_lt :: "pyfloat \<Rightarrow> pyfloat \<Rightarrow> bool" where
  "float_lt a b = (a \<noteq> NaN \<and> b \<noteq> NaN \<and> a < b)"

definition float_le :: "pyfloat \<Rightarrow> pyfloat \<Rightarrow> bool" where
  "float_le a b = (a \<noteq> NaN \<and> b \<noteq> NaN \<and> a \<le> b)"

definition float_eq :: "pyfloat \<Rightarrow> pyfloat \<Rightarrow> bool" where
  "float_eq a b = (a \<noteq> NaN \<and> b \<noteq> NaN \<and> a = b)"

text \<open>
  Rounding to nearest, ties to even, which is how every float operation of
  Python rounds its exact result.  \<open>round_half_even\<close> rounds a rational to an
  integer.  A magnitude is measured in units of \<open>2 ^ - 1074\<close>, the least positive
  float: \<open>shift_of y\<close> is the number of halvings that bring \<open>y\<close> below \<open>2 ^ 53\<close>, so
  that \<open>2 ^ shift_of y\<close> is the spacing of the floats around \<open>y\<close>, and
  \<open>round_magnitude y\<close> is the multiple of that spacing nearest to \<open>y\<close>.  A result
  of magnitude \<open>2 ^ 1024\<close> (\<open>2 ^ 2098\<close> units) or more is an overflow.
\<close>

definition round_half_even :: "rat \<Rightarrow> int" where
  "round_half_even q =
     (let f = \<lfloor>q\<rfloor>; d = q - of_int f in
      if d < 1 / 2 then f
      else if 1 / 2 < d then f + 1
      else if even f then f else f + 1)"

function shift_of :: "rat \<Rightarrow> nat" where
  "shift_of y = (if y < 2 ^ 53 then 0 else Suc (shift_of (y / 2)))"
  by pat_completeness auto
termination
proof (relation "measure (\<lambda>y. nat \<lfloor>y\<rfloor>)")
  show "wf (measure (\<lambda>y::rat. nat \<lfloor>y\<rfloor>))"
    by simp
next
  fix y :: rat
  assume "\<not> y < 2 ^ 53"
  then have big: "2 \<le> y"
    by simp
  then have "y / 2 \<le> y - 1"
    by simp
  then have "\<lfloor>y / 2\<rfloor> \<le> \<lfloor>y - 1\<rfloor>"
    by (rule floor_mono)
  moreover have "0 < \<lfloor>y\<rfloor>"
    using big by simp
  ultimately show "(y / 2, y) \<in> measure (\<lambda>y. nat \<lfloor>y\<rfloor>)"
    by simp
qed

definition round_magnitude :: "rat \<Rightarrow> rat" where
  "round_magnitude y = of_int (round_half_even (y / 2 ^ shift_of y)) * 2 ^ shift_of y"

definition round_double :: "rat \<Rightarrow> pyfloat" where
  "round_double x =
     (let r = round_magnitude (\<bar>x\<bar> * 2 ^ 1074) in
      if 2 ^ 2098 \<le> r then (if x < 0 then NInf else PInf)
      else Finite (sgn x * r / 2 ^ 1074))"

text \<open>Python's \<^verbatim>\<open>a + b\<close> on floats.\<close>

fun float_add :: "pyfloat \<Rightarrow> pyfloat \<Rightarrow> pyfloat" where
  "float_add NaN _ = NaN"
| "float_add _ NaN = NaN"
| "float_add PInf NInf = NaN"
| "float_add NInf PInf = NaN"
| "float_add PInf _ = PInf"
| "float_add _ PInf = PInf"
| "float_add NInf _ = NInf"
| "float_add _ NInf = NInf"
| "float_add (Finite a) (Finite b) = round_double (a + b)"

text \<open>
  Python's \<^verbatim>\<open>a / b\<close> on two \<^verbatim>\<open>int\<close>s: the exact quotient rounded to a float;
  \<^verbatim>\<open>ZeroDivisionError\<close> when \<open>b\<close> is zero and \<^verbatim>\<open>OverflowError\<close> when the quotient
  is too large for a float.
\<close>

definition true_div :: "int \<Rightarrow> int \<Rightarrow> error + pyfloat" where
  "true_div a b =
     (if b = 0 then Inl ZeroDivisionError
      else case round_double (of_int a / of_int b) of
        Finite q \<Rightarrow> Inr (Finite q)
      | _ \<Rightarrow> Inl OverflowError)"

section \<open>task3.py: shortest paths with a binary heap\<close>

text \<open>
  Edge weights and distances are Python floats, as the annotations of \<^verbatim>\<open>Edge\<close> and
  \<^verbatim>\<open>DijkstraResult\<close> say and as \<open>main\<close> passes them: a sum is rounded and can overflow
  to \<^verbatim>\<open>inf\<close>, and a weight can be \<^verbatim>\<open>inf\<close> or \<^verbatim>\<open>nan\<close>. The \<^verbatim>\<open>int\<close> 0 that the program
  starts from compares and adds as the float 0.
\<close>

subsection \<open>Edge and Graph\<close>

record Edge =
  destination :: int
  weight :: pyfloat

text \<open>\<open>Edge(destination, weight)\<close>: the dataclass constructor with \<open>__post_init__\<close>.\<close>

definition Edge_init :: "int \<Rightarrow> pyfloat \<Rightarrow> error + Edge" where
  "Edge_init d w =
     (if float_lt w (Finite 0) then Inl ValueError
      else Inr \<lparr>destination = d, weight = w\<rparr>)"

record Graph =
  vertices :: int
  adjacency_list :: "int \<rightharpoonup> Edge list"

text \<open>\<open>Graph(vertices, adjacency_list)\<close>: the constructor with \<open>__post_init__\<close>, which
  gives every vertex of \<open>range(vertices)\<close> that has no entry an empty list.\<close>

definition Graph_init :: "int \<Rightarrow> (int \<rightharpoonup> Edge list) \<Rightarrow> error + Graph" where
  "Graph_init n adj =
     (if n \<le> 0 then Inl ValueError
      else Inr \<lparr>vertices = n,
                adjacency_list =
                  (\<lambda>i. if 0 \<le> i \<and> i < n \<and> adj i = None then Some [] else adj i)\<rparr>)"

text \<open>\<open>add_edge\<close> mutates the graph; the model returns the outcome of the call together
  with the graph after it.\<close>

definition add_edge :: "int \<Rightarrow> int \<Rightarrow> pyfloat \<Rightarrow> Graph \<Rightarrow> (error + unit) \<times> Graph" where
  "add_edge src dst w g =
     (if \<not> (0 \<le> src \<and> src < vertices g \<and> 0 \<le> dst \<and> dst < vertices g)
      then (Inl ValueError, g)
      else case Edge_init dst w of
             Inl e \<Rightarrow> (Inl e, g)
           | Inr edge \<Rightarrow>
               (case adjacency_list g src of
                  None \<Rightarrow> (Inl KeyError, g)
                | Some es \<Rightarrow>
                    (Inr (), g\<lparr>adjacency_list := (adjacency_list g)(src \<mapsto> es @ [edge])\<rparr>)))"


definition get_neighbors :: "Graph \<Rightarrow> int \<Rightarrow> Edge list" where
  "get_neighbors g vertex =
     (case adjacency_list g vertex of None \<Rightarrow> [] | Some es \<Rightarrow> es)"

subsection \<open>The heap of \<open>heapq\<close>\<close>

text \<open>
  The entries of the heap are tuples \<^verbatim>\<open>(distance, vertex)\<close>. Python compares two
  tuples by their first components that are not \<^verbatim>\<open>==\<close>, so \<open>entry_lt\<close> is \<^verbatim>\<open><\<close> on
  entries.
\<close>

type_synonym entry = "pyfloat \<times> int"

definition entry_lt :: "entry \<Rightarrow> entry \<Rightarrow> bool" where
  "entry_lt x y =
     (if float_eq (fst x) (fst y) then snd x < snd y else float_lt (fst x) (fst y))"

text \<open>
  \<open>heapq\<close> keeps a list in heap order; what the program observes of it is that
  \<open>heappop\<close> removes and returns a least entry and raises IndexError on an empty heap.
  The model keeps the entries in a list; \<open>least_entry\<close> runs through it with \<^verbatim>\<open><\<close> and
  keeps the least entry seen. On entries whose keys are not \<^verbatim>\<open>nan\<close>, \<^verbatim>\<open><\<close> is a linear
  order and the least entry is the one that \<open>heapq\<close> returns; the program pushes no
  other entries (\<open>inv_basic\<close> below).
\<close>

definition heappush :: "'a list \<Rightarrow> 'a \<Rightarrow> 'a list" where
  "heappush h x = x # h"

fun least_entry :: "entry \<Rightarrow> entry list \<Rightarrow> entry" where
  "least_entry best [] = best"
| "least_entry best (x # xs) = least_entry (if entry_lt x best then x else best) xs"

definition heappop :: "entry list \<Rightarrow> error + (entry \<times> entry list)" where
  "heappop h =
     (case h of
        [] \<Rightarrow> Inl IndexError
      | x # xs \<Rightarrow> Inr (least_entry x xs, remove1 (least_entry x xs) h))"

subsection \<open>DijkstraResult and the state of the main loop\<close>

record dijkstra_maps =
  distances :: "int \<rightharpoonup> pyfloat"
  predecessors :: "int \<rightharpoonup> int option"

record DijkstraResult = dijkstra_maps +
  source :: int

text \<open>The local variables of \<open>find_shortest_paths\<close> that the loop changes.\<close>

record dijkstra_state = dijkstra_maps +
  min_heap :: "entry list"
  visited :: "int set"

text \<open>The body of \<open>for edge in graph.get_neighbors(current_vertex)\<close>, for one edge.\<close>

definition relax :: "int \<Rightarrow> dijkstra_state \<Rightarrow> Edge \<Rightarrow> error + dijkstra_state" where
  "relax current_vertex st edge =
     (let neighbor = destination edge; w = weight edge in
      if neighbor \<in> visited st then Inr st
      else case distances st current_vertex of
             None \<Rightarrow> Inl KeyError
           | Some dc \<Rightarrow>
               (let new_distance = float_add dc w in
                case distances st neighbor of
                  None \<Rightarrow> Inl KeyError
                | Some dn \<Rightarrow>
                    if float_lt new_distance dn
                    then Inr (st\<lparr>distances := (distances st)(neighbor \<mapsto> new_distance),
                                 predecessors :=
                                   (predecessors st)(neighbor \<mapsto> Some current_vertex),
                                 min_heap := heappush (min_heap st) (new_distance, neighbor)\<rparr>)
                    else Inr st))"

fun relax_all :: "int \<Rightarrow> Edge list \<Rightarrow> dijkstra_state \<Rightarrow> error + dijkstra_state" where
  "relax_all current_vertex [] st = Inr st"
| "relax_all current_vertex (edge # es) st =
     (case relax current_vertex st edge of
        Inl e \<Rightarrow> Inl e
      | Inr st' \<Rightarrow> relax_all current_vertex es st')"

text \<open>One iteration of \<open>while min_heap\<close>.\<close>

definition iteration :: "Graph \<Rightarrow> dijkstra_state \<Rightarrow> error + dijkstra_state" where
  "iteration g st =
     (case heappop (min_heap st) of
        Inl e \<Rightarrow> Inl e
      | Inr ((current_distance, current_vertex), h) \<Rightarrow>
          (let st1 = st\<lparr>min_heap := h\<rparr> in
           if current_vertex \<in> visited st1 then Inr st1
           else
             (let st2 = st1\<lparr>visited := insert current_vertex (visited st1)\<rparr> in
              case distances st2 current_vertex of
                None \<Rightarrow> Inl KeyError
              | Some d \<Rightarrow>
                  if float_lt d current_distance then Inr st2
                  else relax_all current_vertex (get_neighbors g current_vertex) st2)))"





subsection \<open>Path reconstruction\<close>





definition get_distance :: "DijkstraResult \<Rightarrow> int \<Rightarrow> pyfloat" where
  "get_distance r dest = (case distances r dest of None \<Rightarrow> PInf | Some d \<Rightarrow> d)"

section \<open>task1.py: singly linked list\<close>

subsection \<open>Nodes in a store\<close>

text \<open>
  The functions of task1.py change the \<open>next\<close> fields of nodes that several variables
  refer to, so the nodes live in a store: a reference is a number, the store gives the
  two fields of the node at each reference, and \<open>allocated\<close> is the number of nodes
  created so far (the references below it are in use). A \<open>None\<close> is \<open>None\<close>. The field
  \<open>next\<close> is \<open>nxt\<close> here.
\<close>

type_synonym ref = nat

record store =
  data :: "ref \<Rightarrow> int"
  nxt :: "ref \<Rightarrow> ref option"
  allocated :: nat

text \<open>\<open>Node(data)\<close>: a new node, with \<open>next = None\<close>.\<close>

definition Node_init :: "int \<Rightarrow> store \<Rightarrow> ref \<times> store" where
  "Node_init d h =
     (allocated h,
      h\<lparr>data := (data h)(allocated h := d),
        nxt := (nxt h)(allocated h := None),
        allocated := Suc (allocated h)\<rparr>)"

record LinkedList =
  head :: "ref option"

subsection \<open>\<open>LinkedList.to_list\<close>\<close>

text \<open>The loops of this file run along \<open>next\<close> fields, and do not end on a cyclic
  list: they are partial functions, with \<open>None\<close> for a run that does not end.\<close>

partial_function (option) to_list_loop ::
    "store \<Rightarrow> ref option \<Rightarrow> int list \<Rightarrow> int list option" where
  "to_list_loop h current result =
     (case current of
        None \<Rightarrow> Some result
      | Some c \<Rightarrow> to_list_loop h (nxt h c) (result @ [data h c]))"

declare to_list_loop.simps [code]

definition to_list :: "store \<Rightarrow> LinkedList \<Rightarrow> int list option" where
  "to_list h linked_list = to_list_loop h (head linked_list) []"

subsection \<open>\<open>reverse_linked_list\<close>\<close>

partial_function (option) reverse_loop ::
    "store \<Rightarrow> ref option \<Rightarrow> ref option \<Rightarrow> (ref option \<times> store) option" where
  "reverse_loop h prev current =
     (case current of
        None \<Rightarrow> Some (prev, h)
      | Some c \<Rightarrow>
          (let next_node = nxt h c;
               h' = h\<lparr>nxt := (nxt h)(c := prev)\<rparr>
           in reverse_loop h' (Some c) next_node))"

declare reverse_loop.simps [code]

text \<open>The function assigns \<open>linked_list.head\<close> and returns \<open>linked_list\<close>; the model
  returns the list object after the assignment, and the store.\<close>

definition reverse_linked_list :: "store \<Rightarrow> LinkedList \<Rightarrow> (LinkedList \<times> store) option" where
  "reverse_linked_list h linked_list =
     (case reverse_loop h None (head linked_list) of
        None \<Rightarrow> None
      | Some (prev, h') \<Rightarrow> Some (linked_list\<lparr>head := prev\<rparr>, h'))"

subsection \<open>\<open>get_middle\<close>\<close>

partial_function (option) get_middle_loop ::
    "store \<Rightarrow> ref option \<Rightarrow> ref option \<Rightarrow> ref option option" where
  "get_middle_loop h slow fast =
     (case fast of
        None \<Rightarrow> Some slow
      | Some f \<Rightarrow>
          (case nxt h f of
             None \<Rightarrow> Some slow
           | Some f1 \<Rightarrow>
               (case nxt h f1 of
                  None \<Rightarrow> Some slow
                | Some f2 \<Rightarrow>
                    get_middle_loop h
                      (case slow of None \<Rightarrow> None | Some s \<Rightarrow> nxt h s)
                      (Some f2))))"

declare get_middle_loop.simps [code]

definition get_middle :: "store \<Rightarrow> ref option \<Rightarrow> ref option option" where
  "get_middle h head_node =
     (case head_node of
        None \<Rightarrow> Some None
      | Some _ \<Rightarrow> get_middle_loop h head_node head_node)"

subsection \<open>\<open>merge_sorted_lists_nodes\<close>\<close>

text \<open>The loop \<open>while node1 and node2\<close>; \<open>tail = tail.next\<close> reads the field that the
  iteration has just assigned.\<close>

partial_function (option) merge_loop ::
    "store \<Rightarrow> ref \<Rightarrow> ref option \<Rightarrow> ref option \<Rightarrow>
     (store \<times> ref \<times> ref option \<times> ref option) option" where
  "merge_loop h tail node1 node2 =
     (case (node1, node2) of
        (Some n1, Some n2) \<Rightarrow>
          if data h n1 \<le> data h n2
          then (let h' = h\<lparr>nxt := (nxt h)(tail := Some n1)\<rparr>
                in merge_loop h' n1 (nxt h' n1) node2)
          else (let h' = h\<lparr>nxt := (nxt h)(tail := Some n2)\<rparr>
                in merge_loop h' n2 node1 (nxt h' n2))
      | _ \<Rightarrow> Some (h, tail, node1, node2))"

declare merge_loop.simps [code]

definition merge_sorted_lists_nodes ::
    "store \<Rightarrow> ref option \<Rightarrow> ref option \<Rightarrow> (ref option \<times> store) option" where
  "merge_sorted_lists_nodes h node1 node2 =
     (let (dummy, h0) = Node_init 0 h in
      case merge_loop h0 dummy node1 node2 of
        None \<Rightarrow> None
      | Some (h1, tail, n1, n2) \<Rightarrow>
          (let h2 = h1\<lparr>nxt := (nxt h1)(tail := (if n1 \<noteq> None then n1 else n2))\<rparr>
           in Some (nxt h2 dummy, h2)))"

subsection \<open>\<open>merge_sort_linked_list\<close>\<close>

text \<open>The inner function \<open>sort\<close>.\<close>

partial_function (option) sort_nodes ::
    "ref option \<Rightarrow> store \<Rightarrow> (ref option \<times> store) option" where
  "sort_nodes node h =
     (case node of
        None \<Rightarrow> Some (node, h)
      | Some n \<Rightarrow>
          (case nxt h n of
             None \<Rightarrow> Some (node, h)
           | Some _ \<Rightarrow>
               Option.bind (get_middle h node) (\<lambda>middle.
                 case middle of
                   None \<Rightarrow> Some (node, h)
                 | Some m \<Rightarrow>
                     (let next_to_middle = nxt h m;
                          h1 = h\<lparr>nxt := (nxt h)(m := None)\<rparr>
                      in Option.bind (sort_nodes node h1) (\<lambda>(left_half, h2).
                           Option.bind (sort_nodes next_to_middle h2) (\<lambda>(right_half, h3).
                             merge_sorted_lists_nodes h3 left_half right_half))))))"

declare sort_nodes.simps [code]

definition merge_sort_linked_list ::
    "store \<Rightarrow> LinkedList \<Rightarrow> (LinkedList \<times> store) option" where
  "merge_sort_linked_list h linked_list =
     (case head linked_list of
        None \<Rightarrow> Some (linked_list, h)
      | Some n \<Rightarrow>
          (case nxt h n of
             None \<Rightarrow> Some (linked_list, h)
           | Some _ \<Rightarrow>
               (case sort_nodes (head linked_list) h of
                  None \<Rightarrow> None
                | Some (sorted_head, h') \<Rightarrow> Some (linked_list\<lparr>head := sorted_head\<rparr>, h'))))"

section \<open>task6.py: food selection, greedy and by dynamic programming\<close>

subsection \<open>Dictionaries and lists of Python\<close>

text \<open>
  A \<open>dict\<close> keeps its keys in insertion order and the functions iterate over it, so it
  is an association list with distinct keys: \<open>map_of\<close> is the lookup and
  \<open>AList.update\<close> the assignment \<open>d[k] = v\<close> (in place for a key that is there, at the
  end for a new one). The inner dictionary of an item has the two keys \<open>cost\<close> and
  \<open>calories\<close>, and is a record.
\<close>

record item =
  cost :: int
  calories :: int

type_synonym items = "(string \<times> item) list"

type_synonym selection = "(string \<times> int) list"

text \<open>\<open>d[k]\<close>, which raises KeyError for a missing key.\<close>

definition dict_item :: "('k \<times> 'v) list \<Rightarrow> 'k \<Rightarrow> error + 'v" where
  "dict_item d k = (case map_of d k of None \<Rightarrow> Inl KeyError | Some v \<Rightarrow> Inr v)"

text \<open>\<open>xs[i]\<close> for a list: a negative index counts from the end, and an index out of
  range raises IndexError.\<close>

definition list_item :: "'a list \<Rightarrow> int \<Rightarrow> error + 'a" where
  "list_item xs i =
     (if 0 \<le> i \<and> i < int (length xs) then Inr (xs ! nat i)
      else if i < 0 \<and> - int (length xs) \<le> i then Inr (xs ! nat (int (length xs) + i))
      else Inl IndexError)"

text \<open>A \<open>for\<close> loop whose body can raise: the first error ends the loop.\<close>

fun for_each :: "('a \<Rightarrow> 's \<Rightarrow> error + 's) \<Rightarrow> 'a list \<Rightarrow> 's \<Rightarrow> error + 's" where
  "for_each body [] st = Inr st"
| "for_each body (x # xs) st =
     (case body x st of Inl e \<Rightarrow> Inl e | Inr st' \<Rightarrow> for_each body xs st')"

subsection \<open>\<open>greedy_algorithm\<close>\<close>

text \<open>
  The ratio \<open>calories / cost\<close> is the float that \<open>true_div\<close> gives; the division
  raises ZeroDivisionError for a zero cost and OverflowError for a quotient beyond the
  range of a float, and the first item for which it raises ends the loop.
\<close>

fun ratios_loop :: "items \<Rightarrow> error + (string \<times> pyfloat) list" where
  "ratios_loop [] = Inr []"
| "ratios_loop ((name, info) # rest) =
     (case true_div (calories info) (cost info) of
        Inl e \<Rightarrow> Inl e
      | Inr ratio \<Rightarrow>
          (case ratios_loop rest of
             Inl e \<Rightarrow> Inl e
           | Inr ratios \<Rightarrow> Inr ((name, ratio) # ratios)))"

text \<open>\<open>ratios.sort(key=lambda x: x[1], reverse=True)\<close>: a stable sort in descending
  order, which is the stable ascending sort of the reversed list, reversed. The keys
  are finite floats, which \<^verbatim>\<open><\<close> orders linearly.\<close>

definition sort_reverse :: "('a \<Rightarrow> 'r::linorder) \<Rightarrow> 'a list \<Rightarrow> 'a list" where
  "sort_reverse key xs = rev (sort_key key (rev xs))"

text \<open>The body of \<open>for name, _ in ratios\<close>; the state is \<open>selected\<close> and
  \<open>remaining_budget\<close>. \<open>//\<close> is the floor division, as \<open>div\<close> on \<open>int\<close> is.\<close>

definition greedy_step ::
    "items \<Rightarrow> string \<Rightarrow> selection \<times> int \<Rightarrow> error + selection \<times> int" where
  "greedy_step its name st =
     (case st of (selected, remaining_budget) \<Rightarrow>
        case dict_item its name of
          Inl e \<Rightarrow> Inl e
        | Inr info \<Rightarrow>
            if cost info = 0 then Inl ZeroDivisionError
            else
              (let quantity = remaining_budget div cost info in
               if quantity > 0
               then Inr (AList.update name quantity selected,
                         remaining_budget - quantity * cost info)
               else Inr (selected, remaining_budget)))"

definition greedy_algorithm :: "items \<Rightarrow> int \<Rightarrow> error + selection" where
  "greedy_algorithm its budget =
     (case ratios_loop its of
        Inl e \<Rightarrow> Inl e
      | Inr ratios \<Rightarrow>
          (case for_each (greedy_step its) (map fst (sort_reverse snd ratios)) ([], budget) of
             Inl e \<Rightarrow> Inl e
           | Inr (selected, remaining_budget) \<Rightarrow> Inr selected))"

subsection \<open>\<open>dynamic_programming\<close>\<close>

text \<open>The body of \<open>for item_name in item_list\<close>, at the budget \<open>w\<close>; the state is the
  two tables \<open>dp\<close> and \<open>choices\<close>.\<close>

definition dp_step ::
    "items \<Rightarrow> int \<Rightarrow> string \<Rightarrow> int list \<times> selection list \<Rightarrow>
     error + int list \<times> selection list" where
  "dp_step its w item_name st =
     (case st of (dp, choices) \<Rightarrow>
        case dict_item its item_name of
          Inl e \<Rightarrow> Inl e
        | Inr info \<Rightarrow>
            if cost info \<le> w
            then
              (case list_item dp (w - cost info) of
                 Inl e \<Rightarrow> Inl e
               | Inr below \<Rightarrow>
                   (let new_value = below + calories info in
                    case list_item dp w of
                      Inl e \<Rightarrow> Inl e
                    | Inr current \<Rightarrow>
                        if new_value > current
                        then
                          (case list_item choices (w - cost info) of
                             Inl e \<Rightarrow> Inl e
                           | Inr previous \<Rightarrow>
                               Inr (dp[nat w := new_value],
                                    choices[nat w :=
                                      AList.update item_name
                                        ((case map_of previous item_name of
                                            None \<Rightarrow> 0 | Some q \<Rightarrow> q) + 1)
                                        previous]))
                        else Inr (dp, choices)))
            else Inr (dp, choices))"

text \<open>\<open>[0] * (budget + 1)\<close> is the empty list when \<open>budget + 1 \<le> 0\<close>, as \<open>replicate\<close>
  at \<open>nat (budget + 1)\<close> is; \<open>range(1, budget + 1)\<close> is \<open>[1..budget]\<close>.\<close>

definition dynamic_programming :: "items \<Rightarrow> int \<Rightarrow> error + selection" where
  "dynamic_programming its budget =
     (let item_list = map fst its;
          dp = replicate (nat (budget + 1)) 0;
          choices = replicate (nat (budget + 1)) []
      in case for_each (\<lambda>w. for_each (dp_step its w) item_list) [1..budget] (dp, choices) of
           Inl e \<Rightarrow> Inl e
         | Inr (dp', choices') \<Rightarrow> list_item choices' budget)"

subsection \<open>\<open>calculate_totals\<close>\<close>

definition totals_step :: "items \<Rightarrow> string \<times> int \<Rightarrow> int \<times> int \<Rightarrow> error + int \<times> int" where
  "totals_step its entry st =
     (case entry of (name, quantity) \<Rightarrow>
        case st of (total_cost, total_calories) \<Rightarrow>
          case dict_item its name of
            Inl e \<Rightarrow> Inl e
          | Inr info \<Rightarrow>
              Inr (total_cost + cost info * quantity,
                   total_calories + calories info * quantity))"

definition calculate_totals :: "items \<Rightarrow> selection \<Rightarrow> error + int \<times> int" where
  "calculate_totals its selected = for_each (totals_step its) selected (0, 0)"

section \<open>task5.py: traversals of a binary tree\<close>

subsection \<open>Tree nodes in a store\<close>

text \<open>
  The traversals return lists of \<open>Node\<close> objects, and the claim about them counts nodes
  by identity, so the nodes are references into a store that gives the fields of the
  node at each reference. The field \<open>id\<close> is \<open>node_id\<close> here. The traversals read the
  store and do not change it.
\<close>

record tree_store =
  left :: "ref \<Rightarrow> ref option"
  right :: "ref \<Rightarrow> ref option"
  val :: "ref \<Rightarrow> int"
  color :: "ref \<Rightarrow> string"
  node_id :: "ref \<Rightarrow> string"

subsection \<open>\<open>dfs_traversal\<close>\<close>

text \<open>The stack is a Python list: \<open>pop()\<close> takes the last element and \<open>append\<close> adds
  one at the end. On a structure with a cycle the loop does not end. The list
  \<open>visited\<close> of the function is \<open>visited_nodes\<close> here.\<close>

partial_function (option) dfs_loop ::
    "tree_store \<Rightarrow> ref list \<Rightarrow> ref list \<Rightarrow> ref list option" where
  "dfs_loop h stack visited_nodes =
     (if stack = [] then Some visited_nodes
      else
        (let node = last stack;
             stack1 = butlast stack;
             visited_nodes1 = visited_nodes @ [node];
             stack2 = (case right h node of None \<Rightarrow> stack1 | Some r \<Rightarrow> stack1 @ [r]);
             stack3 = (case left h node of None \<Rightarrow> stack2 | Some l \<Rightarrow> stack2 @ [l])
         in dfs_loop h stack3 visited_nodes1))"

declare dfs_loop.simps [code]

definition dfs_traversal :: "tree_store \<Rightarrow> ref option \<Rightarrow> ref list option" where
  "dfs_traversal h root_node =
     (case root_node of None \<Rightarrow> Some [] | Some r \<Rightarrow> dfs_loop h [r] [])"

subsection \<open>\<open>bfs_traversal\<close>\<close>

text \<open>The queue is a \<open>deque\<close>: \<open>popleft()\<close> takes the first element and \<open>append\<close> adds
  one at the end.\<close>

partial_function (option) bfs_loop ::
    "tree_store \<Rightarrow> ref list \<Rightarrow> ref list \<Rightarrow> ref list option" where
  "bfs_loop h queue visited_nodes =
     (if queue = [] then Some visited_nodes
      else
        (let node = hd queue;
             queue1 = tl queue;
             visited_nodes1 = visited_nodes @ [node];
             queue2 = (case left h node of None \<Rightarrow> queue1 | Some l \<Rightarrow> queue1 @ [l]);
             queue3 = (case right h node of None \<Rightarrow> queue2 | Some r \<Rightarrow> queue2 @ [r])
         in bfs_loop h queue3 visited_nodes1))"

declare bfs_loop.simps [code]

definition bfs_traversal :: "tree_store \<Rightarrow> ref option \<Rightarrow> ref list option" where
  "bfs_traversal h root_node =
     (case root_node of None \<Rightarrow> Some [] | Some r \<Rightarrow> bfs_loop h [r] [])"

text \<open>\<open>create_sample_tree\<close>: the nodes 0 to 5 are created in the order of the function,
  with the keys 0, 4, 5, 10, 1, 3.\<close>

definition sample_tree :: tree_store where
  "sample_tree =
     \<lparr>left = (\<lambda>_. None)(0 := Some 1, 1 := Some 2, 4 := Some 5),
      right = (\<lambda>_. None)(0 := Some 4, 1 := Some 3),
      val = (\<lambda>_. 0)(0 := 0, 1 := 4, 2 := 5, 3 := 10, 4 := 1, 5 := 3),
      color = (\<lambda>_. ''skyblue''),
      node_id = (\<lambda>_. [])\<rparr>"

subsection \<open>Concrete inputs for task3.py\<close>

text \<open>The first graph of \<open>main\<close>, as its nine \<open>add_edge\<close> calls leave it.\<close>

definition demo_graph :: Graph where
  "demo_graph =
     \<lparr>vertices = 6,
      adjacency_list =
        [0 \<mapsto> [\<lparr>destination = 1, weight = Finite 4\<rparr>, \<lparr>destination = 2, weight = Finite 2\<rparr>],
         1 \<mapsto> [\<lparr>destination = 2, weight = Finite 1\<rparr>, \<lparr>destination = 3, weight = Finite 5\<rparr>],
         2 \<mapsto> [\<lparr>destination = 3, weight = Finite 8\<rparr>, \<lparr>destination = 4, weight = Finite 10\<rparr>],
         3 \<mapsto> [\<lparr>destination = 4, weight = Finite 2\<rparr>, \<lparr>destination = 5, weight = Finite 6\<rparr>],
         4 \<mapsto> [\<lparr>destination = 5, weight = Finite 3\<rparr>],
         5 \<mapsto> []]\<rparr>"


text \<open>A loop state whose heap still holds the entry \<open>(5, 1)\<close> of vertex 1, after vertex
  1 was visited at distance 4.\<close>

definition stale_state :: dijkstra_state where
  "stale_state =
     \<lparr>distances = [0 \<mapsto> Finite 0, 1 \<mapsto> Finite 4, 2 \<mapsto> Finite 2, 3 \<mapsto> Finite 9,
                   4 \<mapsto> Finite 12, 5 \<mapsto> PInf],
      predecessors = [0 \<mapsto> None, 1 \<mapsto> Some 0, 2 \<mapsto> Some 0, 3 \<mapsto> Some 1, 4 \<mapsto> Some 2,
                      5 \<mapsto> None],
      min_heap = [(Finite 9, 3), (Finite 5, 1), (Finite 12, 4)],
      visited = {0, 1, 2}\<rparr>"








subsection \<open>Directed paths, and the graphs the algorithm is meant for\<close>





definition in_range :: "Graph \<Rightarrow> int \<Rightarrow> bool" where
  "in_range g v = (0 \<le> v \<and> v < vertices g)"

text \<open>What \<open>add_edge\<close> guarantees of the edges that leave the vertices of the graph.\<close>

definition edges_in_range :: "Graph \<Rightarrow> bool" where
  "edges_in_range g =
     (\<forall>u. in_range g u \<longrightarrow> (\<forall>e \<in> set (get_neighbors g u). in_range g (destination e)))"



text \<open>The values that the distances take on such a graph: \<^verbatim>\<open>inf\<close> and the finite floats
  that are not negative.\<close>

fun nonneg_float :: "pyfloat \<Rightarrow> bool" where
  "nonneg_float (Finite x) = (0 \<le> x \<and> round_double x = Finite x)"
| "nonneg_float PInf = True"
| "nonneg_float NInf = False"
| "nonneg_float NaN = False"

subsection \<open>Executions of the main loop\<close>

text \<open>\<open>step g st st'\<close>: the loop, at its head in state \<open>st\<close>, runs one iteration and is
  back at its head in state \<open>st'\<close>.\<close>

definition step :: "Graph \<Rightarrow> dijkstra_state \<Rightarrow> dijkstra_state \<Rightarrow> bool" where
  "step g st st' = (min_heap st \<noteq> [] \<and> iteration g st = Inr st')"


subsection \<open>The loop invariant\<close>













subsection \<open>The graphs that the program can build\<close>




subsection \<open>Finite linked lists\<close>

text \<open>\<open>llist h p rs\<close>: following \<open>next\<close> from \<open>p\<close> visits the nodes \<open>rs\<close>, in this
  order, and then reaches \<open>None\<close>.\<close>

fun llist :: "store \<Rightarrow> ref option \<Rightarrow> ref list \<Rightarrow> bool" where
  "llist h p [] = (p = None)"
| "llist h p (r # rs) = (p = Some r \<and> llist h (nxt h r) rs)"

text \<open>The nodes of a list are nodes that were created.\<close>

definition in_store :: "store \<Rightarrow> ref list \<Rightarrow> bool" where
  "in_store h rs = (\<forall>r \<in> set rs. r < allocated h)"

text \<open>Merging two lists of nodes by their \<open>data\<close>, as a function on lists.\<close>

fun merge_by :: "(ref \<Rightarrow> int) \<Rightarrow> ref list \<Rightarrow> ref list \<Rightarrow> ref list" where
  "merge_by d [] ys = ys"
| "merge_by d xs [] = xs"
| "merge_by d (x # xs) (y # ys) =
     (if d x \<le> d y then x # merge_by d xs (y # ys) else y # merge_by d (x # xs) ys)"

text \<open>The store after the assignment \<open>tail.next = node1 if node1 else node2\<close> that
  follows the loop of \<open>merge_sorted_lists_nodes\<close>, from what the loop returns.\<close>

definition link_rest :: "store \<times> ref \<times> ref option \<times> ref option \<Rightarrow> store" where
  "link_rest q =
     (case q of (h1, tail, n1, n2) \<Rightarrow>
        h1\<lparr>nxt := (nxt h1)(tail := (if n1 \<noteq> None then n1 else n2))\<rparr>)"

text \<open>The list \<open>5 \<rightarrow> 3 \<rightarrow> 8 \<rightarrow> 1 \<rightarrow> 9\<close> of \<open>main\<close>, in the nodes 0 to 4.\<close>

definition demo_store :: store where
  "demo_store =
     \<lparr>data = (\<lambda>_. 0)(0 := 5, 1 := 3, 2 := 8, 3 := 1, 4 := 9),
      nxt = (\<lambda>_. None)(0 := Some 1, 1 := Some 2, 2 := Some 3, 3 := Some 4),
      allocated = 5\<rparr>"

definition demo_list :: LinkedList where
  "demo_list = \<lparr>head = Some 0\<rparr>"

subsection \<open>Multisets of items\<close>

text \<open>The cost and the calories of a multiset of items, and the multisets that a budget
  allows.\<close>

definition cost_mset :: "(string \<times> item) multiset \<Rightarrow> int" where
  "cost_mset M = (\<Sum>x \<in># M. cost (snd x))"

definition calories_mset :: "(string \<times> item) multiset \<Rightarrow> int" where
  "calories_mset M = (\<Sum>x \<in># M. calories (snd x))"

definition affordable :: "items \<Rightarrow> int \<Rightarrow> (string \<times> item) multiset \<Rightarrow> bool" where
  "affordable its budget M = (set_mset M \<subseteq> set its \<and> cost_mset M \<le> budget)"

text \<open>The multiset that a selection stands for: \<open>quantity\<close> copies of each item.\<close>

fun selection_mset :: "items \<Rightarrow> selection \<Rightarrow> (string \<times> item) multiset" where
  "selection_mset its [] = {#}"
| "selection_mset its ((name, quantity) # rest) =
     (case map_of its name of
        None \<Rightarrow> selection_mset its rest
      | Some info \<Rightarrow> replicate_mset (nat quantity) (name, info) + selection_mset its rest)"

text \<open>Dictionaries of items as the claims take them: distinct keys, costs above 0.\<close>

definition items_ok :: "items \<Rightarrow> bool" where
  "items_ok its = (distinct (map fst its) \<and> (\<forall>x \<in> set its. 0 < cost (snd x)))"

text \<open>The \<open>items\<close> of the module.\<close>

definition menu :: items where
  "menu =
     [(''pizza'', \<lparr>cost = 50, calories = 300\<rparr>),
      (''hamburger'', \<lparr>cost = 40, calories = 250\<rparr>),
      (''hot-dog'', \<lparr>cost = 30, calories = 200\<rparr>),
      (''pepsi'', \<lparr>cost = 10, calories = 100\<rparr>),
      (''cola'', \<lparr>cost = 15, calories = 220\<rparr>),
      (''potato'', \<lparr>cost = 25, calories = 350\<rparr>)]"

text \<open>\<open>{"big": {"cost": 1, "calories": 10 ** 400}}\<close>: the ratio is beyond the range of
  a float.\<close>

definition big_menu :: items where
  "big_menu = [(''big'', \<lparr>cost = 1, calories = 10 ^ 400\<rparr>)]"

text \<open>The ratio \<open>calories / cost\<close> of every item is within the range of a float.\<close>

definition ratios_in_range :: "items \<Rightarrow> bool" where
  "ratios_in_range its =
     (\<forall>x \<in> set its. true_div (calories (snd x)) (cost (snd x)) \<noteq> Inl OverflowError)"

subsection \<open>What the tables of \<open>dynamic_programming\<close> hold\<close>

text \<open>A selection names items of the dictionary, each with a quantity above 0.\<close>

definition sel_ok :: "items \<Rightarrow> selection \<Rightarrow> bool" where
  "sel_ok its sel = (\<forall>e \<in> set sel. map_of its (fst e) \<noteq> None \<and> 0 < snd e)"

text \<open>\<open>choices[v]\<close> costs at most \<open>v\<close> and has \<open>dp[v]\<close> calories.\<close>

definition good_entry :: "items \<Rightarrow> int \<Rightarrow> int \<Rightarrow> selection \<Rightarrow> bool" where
  "good_entry its v d ch =
     (sel_ok its ch \<and> cost_mset (selection_mset its ch) \<le> v \<and>
      calories_mset (selection_mset its ch) = d)"

text \<open>No multiset of items that costs at most \<open>v\<close> has more than \<open>d\<close> calories.\<close>

definition optimal_at :: "items \<Rightarrow> int \<Rightarrow> int \<Rightarrow> bool" where
  "optimal_at its v d = (\<forall>M. affordable its v M \<longrightarrow> calories_mset M \<le> d)"

text \<open>The tables when the outer loop has dealt with the budgets up to \<open>w\<close>.\<close>

definition dp_inv :: "items \<Rightarrow> int \<Rightarrow> int \<Rightarrow> int list \<times> selection list \<Rightarrow> bool" where
  "dp_inv its budget w st =
     (case st of (dp, choices) \<Rightarrow>
        length dp = nat (budget + 1) \<and> length choices = nat (budget + 1) \<and>
        (\<forall>v. 0 \<le> v \<and> v \<le> w \<longrightarrow>
           good_entry its v (dp ! nat v) (choices ! nat v) \<and> optimal_at its v (dp ! nat v)) \<and>
        (\<forall>v. w < v \<and> v \<le> budget \<longrightarrow> dp ! nat v = 0 \<and> choices ! nat v = []))"

text \<open>The tables inside the inner loop at the budget \<open>w\<close>, when the items with a name
  in \<open>D\<close> are dealt with.\<close>

definition dp_inner :: "items \<Rightarrow> int \<Rightarrow> int \<Rightarrow> string set \<Rightarrow> int list \<times> selection list \<Rightarrow> bool"
  where
  "dp_inner its budget w D st =
     (case st of (dp, choices) \<Rightarrow>
        length dp = nat (budget + 1) \<and> length choices = nat (budget + 1) \<and>
        (\<forall>v. 0 \<le> v \<and> v < w \<longrightarrow>
           good_entry its v (dp ! nat v) (choices ! nat v) \<and> optimal_at its v (dp ! nat v)) \<and>
        (\<forall>v. w < v \<and> v \<le> budget \<longrightarrow> dp ! nat v = 0 \<and> choices ! nat v = []) \<and>
        good_entry its w (dp ! nat w) (choices ! nat w) \<and> 0 \<le> dp ! nat w \<and>
        (\<forall>x \<in> set its. fst x \<in> D \<longrightarrow> cost (snd x) \<le> w \<longrightarrow>
           dp ! nat (w - cost (snd x)) + calories (snd x) \<le> dp ! nat w))"

subsection \<open>Binary trees in the store\<close>

text \<open>The shape of what is reachable from a node, as a tree of references.\<close>

datatype rtree = Leaf | Br rtree ref rtree

text \<open>\<open>is_tree h p t\<close>: what is reachable from \<open>p\<close> along \<open>left\<close> and \<open>right\<close> unfolds to
  the finite tree \<open>t\<close>.\<close>

fun is_tree :: "tree_store \<Rightarrow> ref option \<Rightarrow> rtree \<Rightarrow> bool" where
  "is_tree h p Leaf = (p = None)"
| "is_tree h p (Br l x r) = (p = Some x \<and> is_tree h (left h x) l \<and> is_tree h (right h x) r)"

fun nodes :: "rtree \<Rightarrow> ref set" where
  "nodes Leaf = {}"
| "nodes (Br l x r) = insert x (nodes l \<union> nodes r)"

text \<open>No node is reachable twice.\<close>

fun unshared :: "rtree \<Rightarrow> bool" where
  "unshared Leaf = True"
| "unshared (Br l x r) =
     (x \<notin> nodes l \<and> x \<notin> nodes r \<and> nodes l \<inter> nodes r = {} \<and> unshared l \<and> unshared r)"

text \<open>Preorder: a node, then its left subtree, then its right subtree.\<close>

fun preorder :: "rtree \<Rightarrow> ref list" where
  "preorder Leaf = []"
| "preorder (Br l x r) = x # preorder l @ preorder r"

text \<open>The nodes at depth \<open>d\<close>, from left to right, and the level order: the nodes of
  depth 0, then those of depth 1, and so on.\<close>

fun level :: "rtree \<Rightarrow> nat \<Rightarrow> ref list" where
  "level Leaf d = []"
| "level (Br l x r) 0 = [x]"
| "level (Br l x r) (Suc d) = level l d @ level r d"

fun height :: "rtree \<Rightarrow> nat" where
  "height Leaf = 0"
| "height (Br l x r) = Suc (max (height l) (height r))"

definition level_order :: "rtree \<Rightarrow> ref list" where
  "level_order t = concat (map (level t) [0..<height t])"

text \<open>The same for a list of trees side by side, up to the depth \<open>H\<close>.\<close>

definition forest_level :: "rtree list \<Rightarrow> nat \<Rightarrow> ref list" where
  "forest_level ts d = concat (map (\<lambda>t. level t d) ts)"

definition forest_order :: "nat \<Rightarrow> rtree list \<Rightarrow> ref list" where
  "forest_order H ts = concat (map (forest_level ts) [0..<H])"

text \<open>The roots of the trees of a list that are not empty.\<close>

fun roots :: "rtree list \<Rightarrow> ref list" where
  "roots [] = []"
| "roots (Leaf # ts) = roots ts"
| "roots (Br l x r # ts) = x # roots ts"

fun root_of :: "rtree \<Rightarrow> ref option" where
  "root_of Leaf = None"
| "root_of (Br l x r) = Some x"

definition weight_of :: "rtree list \<Rightarrow> nat" where
  "weight_of ts = sum_list (map (\<lambda>t. 2 * size t + 1) ts)"

text \<open>The tree of \<open>sample_tree\<close>.\<close>

definition sample_shape :: rtree where
  "sample_shape =
     Br (Br (Br Leaf 2 Leaf) 1 (Br Leaf 3 Leaf)) 0 (Br (Br Leaf 5 Leaf) 4 Leaf)"


section \<open>Proofs: rounding of floats\<close>

declare shift_of.simps [simp del]

lemma round_half_even_range:
  "\<lfloor>q\<rfloor> \<le> round_half_even q \<and> round_half_even q \<le> \<lfloor>q\<rfloor> + 1"
  by (simp add: round_half_even_def Let_def)

lemma round_half_even_of_int: "round_half_even (of_int k) = k"
  by (simp add: round_half_even_def)

lemma round_half_even_mono:
  assumes "q \<le> q'"
  shows "round_half_even q \<le> round_half_even q'"
proof (cases "\<lfloor>q\<rfloor> = \<lfloor>q'\<rfloor>")
  case True
  have "q - of_int \<lfloor>q'\<rfloor> \<le> q' - of_int \<lfloor>q'\<rfloor>"
    using assms by simp
  then show ?thesis
    unfolding round_half_even_def Let_def True by auto
next
  case False
  with floor_mono [OF assms] have "\<lfloor>q\<rfloor> + 1 \<le> \<lfloor>q'\<rfloor>"
    by simp
  then show ?thesis
    using round_half_even_range [of q] round_half_even_range [of q'] by linarith
qed

lemma round_half_even_le:
  assumes "q \<le> of_int n"
  shows "round_half_even q \<le> n"
  using round_half_even_mono [OF assms] by (simp add: round_half_even_of_int)

lemma round_half_even_ge:
  assumes "of_int n \<le> q"
  shows "n \<le> round_half_even q"
  using round_half_even_mono [OF assms] by (simp add: round_half_even_of_int)

lemma shift_of_small: "y < 2 ^ 53 \<Longrightarrow> shift_of y = 0"
  by (subst shift_of.simps) simp

lemma shift_of_big: "\<not> y < 2 ^ 53 \<Longrightarrow> shift_of y = Suc (shift_of (y / 2))"
  by (subst shift_of.simps) simp

lemma shift_of_less: "y / 2 ^ shift_of y < 2 ^ 53"
proof (induction y rule: shift_of.induct)
  case (1 y)
  show ?case
  proof (cases "y < 2 ^ 53")
    case True
    then show ?thesis
      by (simp add: shift_of_small)
  next
    case False
    have "y / 2 / 2 ^ shift_of (y / 2) < 2 ^ 53"
      using 1 False by simp
    then show ?thesis
      by (simp add: shift_of_big [OF False])
  qed
qed

lemma shift_of_ge: "0 < shift_of y \<Longrightarrow> 2 ^ 52 \<le> y / 2 ^ shift_of y"
proof (induction y rule: shift_of.induct)
  case (1 y)
  show ?case
  proof (cases "y < 2 ^ 53")
    case True
    then show ?thesis
      using "1.prems" by (simp add: shift_of_small)
  next
    case False
    note eq = shift_of_big [OF False]
    show ?thesis
    proof (cases "shift_of (y / 2) = 0")
      case True
      then show ?thesis
        using False by (simp add: eq)
    next
      case nz: False
      have "2 ^ 52 \<le> y / 2 / 2 ^ shift_of (y / 2)"
        using 1 False nz by simp
      then show ?thesis
        by (simp add: eq)
    qed
  qed
qed

lemma shift_of_unique:
  "y / 2 ^ k < 2 ^ 53 \<Longrightarrow> k = 0 \<or> 2 ^ 52 \<le> y / 2 ^ k \<Longrightarrow> shift_of y = k"
proof (induction k arbitrary: y)
  case 0
  then show ?case
    by (simp add: shift_of_small)
next
  case (Suc k)
  from Suc.prems(2) have low: "2 ^ 52 \<le> y / 2 ^ Suc k"
    by simp
  have "(1::rat) \<le> 2 ^ k"
    by simp
  then have "(2::rat) ^ 53 \<le> 2 ^ 52 * 2 ^ Suc k"
    by simp
  also have "\<dots> \<le> y"
    using low by (simp add: pos_le_divide_eq)
  finally have big: "\<not> y < 2 ^ 53"
    by simp
  have "shift_of (y / 2) = k"
  proof (rule Suc.IH)
    show "y / 2 / 2 ^ k < 2 ^ 53"
      using Suc.prems(1) by simp
    show "k = 0 \<or> 2 ^ 52 \<le> y / 2 / 2 ^ k"
      using low by simp
  qed
  then show ?case
    by (simp add: shift_of_big [OF big])
qed

lemma shift_of_mono:
  assumes "y \<le> y'"
  shows "shift_of y \<le> shift_of y'"
proof (rule ccontr)
  assume "\<not> shift_of y \<le> shift_of y'"
  then have less: "Suc (shift_of y') \<le> shift_of y"
    by simp
  then have "0 < shift_of y"
    by simp
  then have "2 ^ 52 \<le> y / 2 ^ shift_of y"
    by (rule shift_of_ge)
  then have "2 ^ 52 * 2 ^ shift_of y \<le> y"
    by (simp add: pos_le_divide_eq)
  moreover have "(2::rat) ^ Suc (shift_of y') \<le> 2 ^ shift_of y"
    using less by (rule power_increasing) simp
  then have "(2::rat) ^ 52 * 2 ^ Suc (shift_of y') \<le> 2 ^ 52 * 2 ^ shift_of y"
    by simp
  ultimately have "2 ^ 53 * 2 ^ shift_of y' \<le> y"
    by simp
  moreover have "y' < 2 ^ 53 * 2 ^ shift_of y'"
    using shift_of_less [of y'] by (simp add: pos_divide_less_eq)
  ultimately show False
    using assms by simp
qed

lemma round_magnitude_zero: "round_magnitude 0 = 0"
  by (simp add: round_magnitude_def round_half_even_def)

lemma round_magnitude_mono:
  assumes "y \<le> y'"
  shows "round_magnitude y \<le> round_magnitude y'"
proof (cases "shift_of y = shift_of y'")
  case True
  have "y / 2 ^ shift_of y' \<le> y' / 2 ^ shift_of y'"
    using assms by (simp add: divide_right_mono)
  then have "round_half_even (y / 2 ^ shift_of y') \<le> round_half_even (y' / 2 ^ shift_of y')"
    by (rule round_half_even_mono)
  then show ?thesis
    by (simp add: round_magnitude_def True)
next
  case False
  with shift_of_mono [OF assms] have less: "Suc (shift_of y) \<le> shift_of y'"
    by simp
  have "round_half_even (y / 2 ^ shift_of y) \<le> 2 ^ 53"
    using shift_of_less [of y] by (intro round_half_even_le) simp
  then have "(of_int (round_half_even (y / 2 ^ shift_of y)) :: rat) \<le> of_int (2 ^ 53)"
    by (simp only: of_int_le_iff)
  then have "round_magnitude y \<le> 2 ^ 53 * 2 ^ shift_of y"
    by (simp add: round_magnitude_def)
  also have "\<dots> = 2 ^ 52 * 2 ^ Suc (shift_of y)"
    by simp
  also have "\<dots> \<le> 2 ^ 52 * 2 ^ shift_of y'"
  proof -
    have "(2::rat) ^ Suc (shift_of y) \<le> 2 ^ shift_of y'"
      using less by (rule power_increasing) simp
    then show ?thesis
      by simp
  qed
  also have "\<dots> \<le> round_magnitude y'"
  proof -
    have "0 < shift_of y'"
      using less by simp
    then have "2 ^ 52 \<le> y' / 2 ^ shift_of y'"
      by (rule shift_of_ge)
    then have "2 ^ 52 \<le> round_half_even (y' / 2 ^ shift_of y')"
      by (intro round_half_even_ge) simp
    then have "(of_int (2 ^ 52) :: rat) \<le> of_int (round_half_even (y' / 2 ^ shift_of y'))"
      by (simp only: of_int_le_iff)
    then show ?thesis
      by (simp add: round_magnitude_def)
  qed
  finally show ?thesis .
qed

lemma round_magnitude_fix:
  assumes "0 \<le> m" and "m \<le> 2 ^ 53"
  shows "round_magnitude (of_int m * 2 ^ sh) = of_int m * 2 ^ sh"
proof -
  define y :: rat where "y = of_int m * 2 ^ sh"
  define k where "k = shift_of y"
  have "\<exists>j::int. y / 2 ^ k = of_int j"
  proof (cases "k \<le> sh")
    case True
    then have "(2::rat) ^ sh = 2 ^ (sh - k) * 2 ^ k"
      by (simp flip: power_add)
    then have "y / 2 ^ k = of_int (m * 2 ^ (sh - k))"
      by (simp add: y_def)
    then show ?thesis ..
  next
    case False
    then have "0 < shift_of y"
      by (simp add: k_def)
    then have "2 ^ 52 \<le> y / 2 ^ k"
      unfolding k_def by (rule shift_of_ge)
    then have low: "2 ^ 52 * 2 ^ k \<le> y"
      by (simp add: pos_le_divide_eq)
    have "(of_int m :: rat) \<le> of_int (2 ^ 53)"
      using assms(2) by (simp only: of_int_le_iff)
    then have up: "y \<le> 2 ^ 53 * 2 ^ sh"
      by (simp add: y_def)
    have "(2::rat) ^ 52 * 2 ^ k \<le> 2 ^ 53 * 2 ^ sh"
      using low up by (rule order_trans)
    then have "(2::rat) ^ (52 + k) \<le> 2 ^ (53 + sh)"
      by (simp only: power_add)
    then have "52 + k \<le> 53 + sh"
      by (rule power_le_imp_le_exp [rotated]) simp
    then have "k \<le> Suc sh"
      by simp
    with False have k: "k = Suc sh"
      by simp
    from low up have "y = 2 ^ 53 * 2 ^ sh"
      by (simp add: k)
    then have "y / 2 ^ k = of_int (2 ^ 52)"
      by (simp add: k)
    then show ?thesis ..
  qed
  then obtain j :: int where j: "y / 2 ^ k = of_int j" ..
  then have "round_magnitude y = of_int j * 2 ^ k"
    by (simp add: round_magnitude_def k_def round_half_even_of_int)
  also have "\<dots> = y"
    by (simp flip: j)
  finally show ?thesis
    by (simp add: y_def)
qed




lemma round_double_nonneg:
  assumes "0 \<le> x"
  shows "round_double x =
    (if 2 ^ 2098 \<le> round_magnitude (x * 2 ^ 1074) then PInf
     else Finite (round_magnitude (x * 2 ^ 1074) / 2 ^ 1074))"
proof (cases "x = 0")
  case True
  then show ?thesis
    by (simp add: round_double_def round_magnitude_zero)
next
  case False
  with assms have "0 < x"
    by simp
  then show ?thesis
    by (simp add: round_double_def Let_def)
qed



lemma round_double_of_int:
  assumes "\<bar>k\<bar> \<le> 2 ^ 53"
  shows "round_double (of_int k) = Finite (of_int k)"
proof -
  have exact: "round_magnitude (of_int \<bar>k\<bar> * 2 ^ 1074) = of_int \<bar>k\<bar> * 2 ^ 1074"
    using assms by (intro round_magnitude_fix) simp_all
  have "(of_int \<bar>k\<bar> :: rat) \<le> of_int (2 ^ 53)"
    using assms by (simp only: of_int_le_iff)
  then have "(of_int \<bar>k\<bar> :: rat) * 2 ^ 1074 \<le> 2 ^ 53 * 2 ^ 1074"
    by (simp only: mult_le_cancel_right) simp
  also have "\<dots> < 2 ^ 2098"
    by simp
  finally have small: "\<not> 2 ^ 2098 \<le> (of_int \<bar>k\<bar> :: rat) * 2 ^ 1074"
    by simp
  have "sgn (of_int k :: rat) * of_int \<bar>k\<bar> = of_int k"
    by (simp add: sgn_if)
  then have "sgn (of_int k :: rat) * (of_int \<bar>k\<bar> * 2 ^ 1074) / 2 ^ 1074 = of_int k"
    by simp
  then show ?thesis
    using exact small
    by (simp only: round_double_def Let_def of_int_abs [symmetric] if_False)
qed

lemma round_double_overflow:
  assumes "2 ^ 1024 \<le> x"
  shows "round_double x = PInf"
proof -
  have pos: "0 \<le> x"
    using assms by (rule order_trans [rotated]) simp
  have "round_magnitude (of_int (2 ^ 53) * 2 ^ 2045) = of_int (2 ^ 53) * 2 ^ 2045"
    by (rule round_magnitude_fix) simp_all
  then have "round_magnitude (2 ^ 2098) = (2 ^ 2098 :: rat)"
    by simp
  moreover have "(2 ^ 2098 :: rat) \<le> x * 2 ^ 1074"
  proof -
    have "(2 ^ 2098 :: rat) = 2 ^ 1024 * 2 ^ 1074"
      by simp
    also have "\<dots> \<le> x * 2 ^ 1074"
      using assms by (simp only: mult_le_cancel_right) simp
    finally show ?thesis .
  qed
  then have "round_magnitude (2 ^ 2098) \<le> round_magnitude (x * 2 ^ 1074)"
    by (rule round_magnitude_mono)
  ultimately show ?thesis
    by (simp add: round_double_nonneg [OF pos])
qed

lemma round_double_zero [simp]: "round_double 0 = Finite 0"
  using round_double_of_int [of 0] by simp

lemma round_double_one [simp]: "round_double 1 = Finite 1"
  using round_double_of_int [of 1] by simp

lemma round_double_minus_one [simp]: "round_double (- 1) = Finite (- 1)"
  using round_double_of_int [of "- 1"] by simp

lemma round_double_numeral [simp]:
  "(numeral k :: int) \<le> 2 ^ 53 \<Longrightarrow> round_double (numeral k) = Finite (numeral k)"
  using round_double_of_int [of "numeral k"] by simp

lemma round_double_neg_numeral [simp]:
  "(numeral k :: int) \<le> 2 ^ 53 \<Longrightarrow> round_double (- numeral k) = Finite (- numeral k)"
  using round_double_of_int [of "- numeral k"] by simp

text \<open>A value \<open>x\<close> with \<open>2 ^ 52 \<le> x * 2 ^ k < 2 ^ 53\<close> is rounded to a multiple of
  \<open>1 / 2 ^ k\<close>.\<close>

lemma round_double_scaled:
  assumes low: "2 ^ 52 \<le> x * 2 ^ k" and up: "x * 2 ^ k < 2 ^ 53" and k: "k \<le> 1074"
  shows "round_double x = Finite (of_int (round_half_even (x * 2 ^ k)) / 2 ^ k)"
proof -
  let ?q = "x * 2 ^ k"
  define n where "n = 1074 - k"
  have pos: "0 < x"
  proof -
    have "(0::rat) < 2 ^ 52"
      by simp
    then have "0 < x * 2 ^ k"
      using low by (rule less_le_trans)
    then show ?thesis
      by (simp add: zero_less_mult_iff)
  qed
  have "k + n = 1074"
    using k by (simp add: n_def)
  then have split: "(2::rat) ^ 1074 = 2 ^ k * 2 ^ n"
    by (simp only: flip: power_add)
  have "\<bar>x\<bar> = x"
    using pos by simp
  then have y: "\<bar>x\<bar> * 2 ^ 1074 = ?q * 2 ^ n"
    by (simp only: split mult.assoc)
  have div: "a * 2 ^ n / 2 ^ n = a" for a :: rat
    by simp
  have "shift_of (?q * 2 ^ n) = n"
    using low up by (intro shift_of_unique) (simp_all only: div simp_thms)
  then have mag: "round_magnitude (?q * 2 ^ n) = of_int (round_half_even ?q) * 2 ^ n"
    by (simp only: round_magnitude_def div)
  have "round_half_even ?q \<le> 2 ^ 53"
    using up by (intro round_half_even_le) simp
  then have "(of_int (round_half_even ?q) :: rat) \<le> of_int (2 ^ 53)"
    by (simp only: of_int_le_iff)
  then have "(of_int (round_half_even ?q) :: rat) * 2 ^ n \<le> 2 ^ 53 * 2 ^ n"
    by (simp only: mult_le_cancel_right) simp
  also have "\<dots> = 2 ^ (53 + n)"
    by (simp only: power_add)
  also have "\<dots> < 2 ^ 2098"
    by (intro power_strict_increasing) (simp_all add: n_def)
  finally have small: "\<not> 2 ^ 2098 \<le> (of_int (round_half_even ?q) :: rat) * 2 ^ n"
    by simp
  have "of_int (round_half_even ?q) * 2 ^ n / ((2::rat) ^ k * 2 ^ n) =
      of_int (round_half_even ?q) / 2 ^ k"
    by simp
  moreover have "sgn x = 1"
    using pos by simp
  ultimately have "sgn x * (of_int (round_half_even ?q) * 2 ^ n) / 2 ^ 1074 =
      of_int (round_half_even ?q) / 2 ^ k"
    by (simp only: split mult_1)
  then show ?thesis
    using small by (simp only: round_double_def Let_def y mag if_False)
qed


subsection \<open>Comparisons and sums of floats that are not negative\<close>

lemma Finite_less_iff [simp]: "Finite a < Finite b \<longleftrightarrow> a < b"
  by (auto simp: less_pyfloat_def)

lemma float_lt_Finite [simp]: "float_lt (Finite a) (Finite b) \<longleftrightarrow> a < b"
  by (simp add: float_lt_def)

lemma float_lt_simps [simp]:
  "float_lt (Finite a) PInf" "\<not> float_lt PInf d" "\<not> float_lt d NInf"
  "float_lt NInf (Finite a)" "float_lt NInf PInf" "\<not> float_lt NaN d" "\<not> float_lt d NaN"
  by (cases d; simp add: float_lt_def less_pyfloat_def)+

lemma float_le_simps [simp]:
  "float_le (Finite a) (Finite b) \<longleftrightarrow> a \<le> b" "float_le (Finite a) PInf"
  "\<not> float_le PInf (Finite a)" "\<not> float_le (Finite a) NInf" "\<not> float_le NaN d"
  "\<not> float_le d NaN"
  by (cases d; simp add: float_le_def)+






lemma nonneg_float_zero [simp]: "nonneg_float (Finite 0)"
  by simp











subsection \<open>Some sums\<close>




subsection \<open>Rounding a value that lies near a float\<close>

lemma round_half_even_near:
  assumes "of_int n - 1 / 2 < q" and "q < of_int n + 1 / 2"
  shows "round_half_even q = n"
proof (cases "of_int n \<le> q")
  case True
  with assms(2) have "\<lfloor>q\<rfloor> = n"
    by (intro floor_unique) simp_all
  with assms(2) show ?thesis
    by (simp add: round_half_even_def Let_def)
next
  case False
  with assms(1) have f: "\<lfloor>q\<rfloor> = n - 1"
    by (intro floor_unique) simp_all
  from assms(1) have "\<not> q - of_int (n - 1) < 1 / 2" "1 / 2 < q - of_int (n - 1)"
    by simp_all
  then show ?thesis
    by (simp only: round_half_even_def Let_def f if_False if_True)
qed

lemma round_double_near:
  assumes "2 ^ 52 \<le> x * 2 ^ k" and "x * 2 ^ k < 2 ^ 53" and "k \<le> 1074"
    and "of_int n - 1 / 2 < x * 2 ^ k" and "x * 2 ^ k < of_int n + 1 / 2"
  shows "round_double x = Finite (of_int n / 2 ^ k)"
  using round_double_scaled [OF assms(1-3)] round_half_even_near [OF assms(4,5)]
  by simp

lemma true_div_cases:
  assumes "b \<noteq> 0"
  obtains q where "true_div a b = Inr (Finite q)" | "true_div a b = Inl OverflowError"
  using assms by (cases "round_double (of_int a / of_int b)") (simp_all add: true_div_def)


section \<open>Properties of task3.py\<close>

subsection \<open>Stale heap entries\<close>

text \<open>
  C5. In an iteration of the main loop that pops an entry whose vertex is already in
  \<open>visited\<close>, or whose key is greater than \<open>distances[vertex]\<close>, the entry is discarded:
  the iteration ends normally with \<open>distances\<close> and \<open>predecessors\<close> as they were, and
  the heap is the old heap without the popped entry.
\<close>

theorem stale_entry_discarded:
  assumes "heappop (min_heap st) = Inr ((current_distance, current_vertex), h)"
    and "current_vertex \<in> visited st \<or>
         (\<exists>d. distances st current_vertex = Some d \<and> float_lt d current_distance)"
  shows "\<exists>st'. iteration g st = Inr st' \<and> distances st' = distances st \<and>
           predecessors st' = predecessors st \<and> min_heap st' = h"
  using assms by (auto simp: iteration_def Let_def)

theorem stale_entry_discarded_witness:
  "heappop (min_heap stale_state) = Inr ((Finite 5, 1), [(Finite 9, 3), (Finite 12, 4)]) \<and>
   1 \<in> visited stale_state \<and>
   (\<exists>st'. iteration demo_graph stale_state = Inr st' \<and>
      distances st' = distances stale_state \<and>
      predecessors st' = predecessors stale_state \<and>
      min_heap st' = [(Finite 9, 3), (Finite 12, 4)])"
proof -
  have h: "heappop (min_heap stale_state) =
      Inr ((Finite 5, 1), [(Finite 9, 3), (Finite 12, 4)])"
    by (simp add: heappop_def stale_state_def entry_lt_def float_eq_def)
  have v: "1 \<in> visited stale_state \<or>
           (\<exists>d. distances stale_state 1 = Some d \<and> float_lt d (Finite 5))"
    by (simp add: stale_state_def)
  have "1 \<in> visited stale_state"
    by (simp add: stale_state_def)
  then show ?thesis
    using h stale_entry_discarded [OF h v, of demo_graph] by simp
qed

subsection \<open>The heap\<close>








lemma set_remove1_other: "y \<in> set h \<Longrightarrow> y \<noteq> x \<Longrightarrow> y \<in> set (remove1 x h)"
  by simp

subsection \<open>A relaxation, when it raises nothing\<close>







subsection \<open>The loop ends on every graph, and returns when its edges stay in range\<close>

lemma finite_in_range [simp]: "finite {v. in_range g v}"
proof -
  have "{v. in_range g v} = {0..<vertices g}"
    by (auto simp: in_range_def)
  then show ?thesis
    by simp
qed















subsection \<open>Paths and predecessor chains\<close>









subsection \<open>A relaxation that improves a distance keeps the invariant\<close>










subsection \<open>The inner loop keeps the invariant\<close>



subsection \<open>An iteration of the main loop keeps the invariant\<close>











subsection \<open>Visited vertices keep their distance\<close>






subsection \<open>When the heap is empty\<close>



subsection \<open>Facts about the concrete graphs\<close>
















subsection \<open>\<open>Graph(n)\<close> and \<open>add_edge\<close> give graphs whose edges stay in range\<close>

lemma Graph_init_empty_ok:
  assumes "Graph_init n Map.empty = Inr g"
  shows "edges_in_range g"
  using assms unfolding Graph_init_def edges_in_range_def get_neighbors_def
  by (auto split: if_splits)

lemma get_neighbors_add_edge:
  "set (get_neighbors (snd (add_edge a b w g)) u) \<subseteq>
     set (get_neighbors g u) \<union>
     (if in_range g a \<and> in_range g b then {\<lparr>destination = b, weight = w\<rparr>} else {})"
  unfolding add_edge_def get_neighbors_def Edge_init_def in_range_def
  by (auto split: option.splits)

lemma vertices_add_edge [simp]: "vertices (snd (add_edge a b w g)) = vertices g"
  unfolding add_edge_def by (auto split: sum.splits option.splits)

lemma add_edge_ok:
  assumes "edges_in_range g"
  shows "edges_in_range (snd (add_edge a b w g))"
proof -
  have "in_range g (destination e)"
    if "in_range g u" "e \<in> set (get_neighbors (snd (add_edge a b w g)) u)" for u e
  proof (cases "e \<in> set (get_neighbors g u)")
    case True
    with assms that(1) show ?thesis
      unfolding edges_in_range_def by blast
  next
    case False
    with that(2) get_neighbors_add_edge [of a b w g u] show ?thesis
      by (auto split: if_splits)
  qed
  then show ?thesis
    unfolding edges_in_range_def by (simp add: in_range_def)
qed

subsection \<open>The claims about \<open>find_shortest_paths\<close>\<close>










subsection \<open>Negative edge weights\<close>










section \<open>Properties of task1.py\<close>

subsection \<open>Lists in the store\<close>

lemma llist_None [simp]: "llist h None rs \<longleftrightarrow> rs = []"
  by (cases rs) auto

lemma llist_Some: "llist h (Some r) rs \<longleftrightarrow> (\<exists>rs'. rs = r # rs' \<and> llist h (nxt h r) rs')"
  by (cases rs) auto

lemma llist_functional: "llist h p rs \<Longrightarrow> llist h p rs' \<Longrightarrow> rs = rs'"
proof (induction rs arbitrary: p rs')
  case Nil
  then show ?case by simp
next
  case (Cons r rs)
  then show ?case by (cases rs') auto
qed

lemma llist_suffix:
  "llist h p rs \<Longrightarrow> r \<in> set rs \<Longrightarrow> \<exists>as bs. rs = as @ r # bs \<and> llist h (Some r) (r # bs)"
proof (induction rs arbitrary: p)
  case Nil
  then show ?case by simp
next
  case (Cons a rs)
  show ?case
  proof (cases "r = a")
    case True
    with Cons.prems(1) have "a # rs = [] @ r # rs \<and> llist h (Some r) (r # rs)" by simp
    then show ?thesis by blast
  next
    case False
    with Cons.prems have "llist h (nxt h a) rs" "r \<in> set rs" by simp_all
    from Cons.IH [OF this] obtain as bs where "rs = as @ r # bs" "llist h (Some r) (r # bs)"
      by blast
    then have "a # rs = (a # as) @ r # bs \<and> llist h (Some r) (r # bs)" by simp
    then show ?thesis by blast
  qed
qed

lemma llist_distinct: "llist h p rs \<Longrightarrow> distinct rs"
proof (induction rs arbitrary: p)
  case Nil
  then show ?case by simp
next
  case (Cons r rs)
  then have tl: "llist h (nxt h r) rs" and hd: "llist h (Some r) (r # rs)" by simp_all
  have "r \<notin> set rs"
  proof
    assume "r \<in> set rs"
    from llist_suffix [OF tl this] obtain as bs where
      "rs = as @ r # bs" "llist h (Some r) (r # bs)"
      by blast
    with llist_functional [OF hd this(2)] show False by simp
  qed
  with Cons.IH [OF tl] show ?case by simp
qed

lemma llist_cong:
  "\<forall>r \<in> set rs. nxt h' r = nxt h r \<Longrightarrow> llist h' p rs = llist h p rs"
  by (induction rs arbitrary: p) auto

lemma llist_nxt_upd [simp]:
  "r \<notin> set rs \<Longrightarrow> llist (h\<lparr>nxt := (nxt h)(r := v)\<rparr>) p rs = llist h p rs"
  by (rule llist_cong) simp

lemma llist_nth:
  "llist h p rs \<Longrightarrow> i < length rs \<Longrightarrow>
     nxt h (rs ! i) = (if Suc i < length rs then Some (rs ! Suc i) else None)"
proof (induction rs arbitrary: p i)
  case Nil
  then show ?case by simp
next
  case (Cons r rs)
  show ?case
  proof (cases i)
    case 0
    with Cons.prems show ?thesis by (cases rs) auto
  next
    case (Suc j)
    with Cons.prems Cons.IH [of "nxt h r" j] show ?thesis by simp
  qed
qed

lemma llist_drop: "llist h p rs \<Longrightarrow> i < length rs \<Longrightarrow> llist h (Some (rs ! i)) (drop i rs)"
proof (induction rs arbitrary: p i)
  case Nil
  then show ?case by simp
next
  case (Cons r rs)
  show ?case
  proof (cases i)
    case 0
    with Cons.prems show ?thesis by simp
  next
    case (Suc j)
    with Cons.prems Cons.IH [of "nxt h r" j] show ?thesis by simp
  qed
qed

lemma to_list_loop_llist:
  "llist h p rs \<Longrightarrow> to_list_loop h p acc = Some (acc @ map (data h) rs)"
proof (induction rs arbitrary: p acc)
  case Nil
  then show ?case by (simp add: to_list_loop.simps)
next
  case (Cons r rs)
  then have "llist h (nxt h r) rs" "p = Some r" by simp_all
  with Cons.IH [of "nxt h r" "acc @ [data h r]"] show ?case
    by (subst to_list_loop.simps) simp
qed

lemma to_list_llist:
  "llist h (head l) rs \<Longrightarrow> to_list h l = Some (map (data h) rs)"
  unfolding to_list_def by (simp add: to_list_loop_llist)

subsection \<open>Reversal\<close>

lemma reverse_loop_llist:
  "llist h current rs \<Longrightarrow> llist h prev ps \<Longrightarrow> set rs \<inter> set ps = {} \<Longrightarrow>
   \<exists>q h'. reverse_loop h prev current = Some (q, h') \<and> llist h' q (rev rs @ ps) \<and>
     data h' = data h \<and> allocated h' = allocated h \<and>
     (\<forall>r. r \<notin> set rs \<longrightarrow> nxt h' r = nxt h r)"
proof (induction rs arbitrary: h current prev ps)
  case Nil
  then show ?case by (simp add: reverse_loop.simps)
next
  case (Cons r rs)
  let ?h1 = "h\<lparr>nxt := (nxt h)(r := prev)\<rparr>"
  from Cons.prems(1) have cur: "current = Some r" and tl: "llist h (nxt h r) rs" by simp_all
  from llist_distinct [OF Cons.prems(1)] have r: "r \<notin> set rs" by simp
  from Cons.prems(3) have rp: "r \<notin> set ps" by simp
  from tl r have 1: "llist ?h1 (nxt h r) rs" by simp
  from Cons.prems(2) rp have 2: "llist ?h1 (Some r) (r # ps)" by simp
  from Cons.prems(3) r have 3: "set rs \<inter> set (r # ps) = {}" by auto
  from Cons.IH [OF 1 2 3] obtain q h' where
    res: "reverse_loop ?h1 (Some r) (nxt h r) = Some (q, h')" "llist h' q (rev rs @ r # ps)"
      "data h' = data h" "allocated h' = allocated h"
      "\<forall>x. x \<notin> set rs \<longrightarrow> nxt h' x = nxt ?h1 x"
    by auto
  have "reverse_loop h prev current = Some (q, h')"
    using cur res(1) by (subst reverse_loop.simps) (simp add: Let_def)
  moreover have "\<forall>x. x \<notin> set (r # rs) \<longrightarrow> nxt h' x = nxt h x"
    using res(5) by simp
  ultimately show ?case
    using res(2-4) by simp
qed

text \<open>
  C9. On a finite linked list with the nodes \<open>rs\<close>, \<open>reverse_linked_list\<close> returns, and
  the returned list has the same nodes in the reverse order: no node is created, no
  \<open>data\<close> field changes, only \<open>next\<close> fields of the nodes of the list change, and
  \<open>to_list\<close> of the result is the reverse of \<open>to_list\<close> of the input.
\<close>

theorem reverse_linked_list_correct:
  assumes "llist h (head l) rs"
  shows "\<exists>l' h'. reverse_linked_list h l = Some (l', h') \<and>
    llist h' (head l') (rev rs) \<and> data h' = data h \<and> allocated h' = allocated h \<and>
    (\<forall>r. r \<notin> set rs \<longrightarrow> nxt h' r = nxt h r) \<and>
    to_list h l = Some (map (data h) rs) \<and>
    to_list h' l' = Some (rev (map (data h) rs))"
proof -
  have "llist h None []" by simp
  from reverse_loop_llist [OF assms this] obtain q h' where
    res: "reverse_loop h None (head l) = Some (q, h')" "llist h' q (rev rs)"
      "data h' = data h" "allocated h' = allocated h" "\<forall>r. r \<notin> set rs \<longrightarrow> nxt h' r = nxt h r"
    by auto
  let ?l' = "l\<lparr>head := q\<rparr>"
  from res(1) have "reverse_linked_list h l = Some (?l', h')"
    by (simp add: reverse_linked_list_def)
  moreover from res(2) have "llist h' (head ?l') (rev rs)" by simp
  moreover from to_list_llist [OF this] res(3)
  have "to_list h' ?l' = Some (rev (map (data h) rs))" by (simp add: rev_map)
  ultimately show ?thesis
    using res(3-5) to_list_llist [OF assms] by blast
qed

lemma demo_list_llist: "llist demo_store (head demo_list) [0, 1, 2, 3, 4]"
  by (simp add: demo_store_def demo_list_def)

theorem reverse_linked_list_correct_witness:
  "llist demo_store (head demo_list) [0, 1, 2, 3, 4] \<and>
   (\<exists>l' h'. reverse_linked_list demo_store demo_list = Some (l', h') \<and>
      llist h' (head l') [4, 3, 2, 1, 0] \<and>
      to_list demo_store demo_list = Some [5, 3, 8, 1, 9] \<and>
      to_list h' l' = Some [9, 1, 8, 3, 5])"
proof -
  have "map (data demo_store) [0, 1, 2, 3, 4] = [5, 3, 8, 1, 9]"
    by (simp add: demo_store_def)
  with reverse_linked_list_correct [OF demo_list_llist] demo_list_llist
  show ?thesis by auto
qed

subsection \<open>The middle of a list\<close>

lemma get_middle_loop_llist:
  assumes l: "llist h p rs"
  shows "2 * k < length rs \<Longrightarrow>
    get_middle_loop h (Some (rs ! k)) (Some (rs ! (2 * k))) =
      Some (Some (rs ! ((length rs - 1) div 2)))"
proof (induction "length rs - 2 * k" arbitrary: k rule: less_induct)
  case less
  note nth = llist_nth [OF l]
  show ?case
  proof (cases "Suc (2 * k) < length rs")
    case False
    with less.prems have "(length rs - 1) div 2 = k" by presburger
    with False less.prems nth [of "2 * k"] show ?thesis
      by (subst get_middle_loop.simps) simp
  next
    case one: True
    show ?thesis
    proof (cases "Suc (Suc (2 * k)) < length rs")
      case False
      with one have "(length rs - 1) div 2 = k" by presburger
      with False one nth [of "2 * k"] nth [of "Suc (2 * k)"] show ?thesis
        by (subst get_middle_loop.simps) simp
    next
      case two: True
      then have k: "2 * Suc k < length rs" "length rs - 2 * Suc k < length rs - 2 * k"
        by simp_all
      from less.hyps [OF k(2) k(1)] have
        "get_middle_loop h (Some (rs ! Suc k)) (Some (rs ! Suc (Suc (2 * k)))) =
           Some (Some (rs ! ((length rs - 1) div 2)))"
        by simp
      moreover from two have "Suc k < length rs" by simp
      ultimately show ?thesis
        using one two nth [of "2 * k"] nth [of "Suc (2 * k)"] nth [of k]
        by (subst get_middle_loop.simps) simp
    qed
  qed
qed

lemma get_middle_llist:
  assumes "llist h p rs" and "rs \<noteq> []"
  shows "get_middle h p = Some (Some (rs ! ((length rs - 1) div 2)))"
proof -
  from assms obtain r rs' where rs: "rs = r # rs'" by (cases rs) auto
  with assms(1) have p: "p = Some (rs ! 0)" by simp
  from get_middle_loop_llist [OF assms(1), of 0] assms(2) p show ?thesis
    by (simp add: get_middle_def)
qed

subsection \<open>Cutting a list after a node\<close>

lemma llist_take_cut:
  "llist h p rs \<Longrightarrow> m < length rs \<Longrightarrow> distinct rs \<Longrightarrow>
     llist (h\<lparr>nxt := (nxt h)(rs ! m := None)\<rparr>) p (take (Suc m) rs)"
proof (induction rs arbitrary: p m)
  case Nil
  then show ?case by simp
next
  case (Cons r rs)
  show ?case
  proof (cases m)
    case 0
    with Cons.prems show ?thesis by simp
  next
    case (Suc j)
    with Cons.prems have "rs ! j \<noteq> r" by auto
    with Suc Cons.prems Cons.IH [of "nxt h r" j] show ?thesis by simp
  qed
qed

lemma llist_drop_cut:
  assumes "llist h p rs" and "m < length rs"
  shows "llist (h\<lparr>nxt := (nxt h)(rs ! m := None)\<rparr>) (nxt h (rs ! m)) (drop (Suc m) rs)"
proof -
  from llist_drop [OF assms] assms(2) have "llist h (nxt h (rs ! m)) (drop (Suc m) rs)"
    by (simp add: Cons_nth_drop_Suc [symmetric])
  moreover from llist_distinct [OF assms(1)] assms(2) have "rs ! m \<notin> set (drop (Suc m) rs)"
    by (metis Cons_nth_drop_Suc distinct.simps(2) distinct_drop)
  ultimately show ?thesis by simp
qed

subsection \<open>Merging\<close>

lemma mset_merge_by: "mset (merge_by d xs ys) = mset xs + mset ys"
  by (induction d xs ys rule: merge_by.induct) auto

lemma set_merge_by: "set (merge_by d xs ys) = set xs \<union> set ys"
  by (induction d xs ys rule: merge_by.induct) auto

lemma sorted_merge_by:
  "sorted (map d xs) \<Longrightarrow> sorted (map d ys) \<Longrightarrow> sorted (map d (merge_by d xs ys))"
  by (induction d xs ys rule: merge_by.induct) (auto simp: set_merge_by)

lemma merge_by_cong:
  "\<forall>r \<in> set xs \<union> set ys. d' r = d r \<Longrightarrow> merge_by d' xs ys = merge_by d xs ys"
  by (induction d xs ys rule: merge_by.induct) auto

lemma merge_loop_llist:
  "data h = d \<Longrightarrow> llist h n1 xs \<Longrightarrow> llist h n2 ys \<Longrightarrow> set xs \<inter> set ys = {} \<Longrightarrow>
   tail \<notin> set xs \<Longrightarrow> tail \<notin> set ys \<Longrightarrow>
   \<exists>q. merge_loop h tail n1 n2 = Some q \<and>
     llist (link_rest q) (Some tail) (tail # merge_by d xs ys) \<and>
     data (link_rest q) = d \<and> allocated (link_rest q) = allocated h \<and>
     (\<forall>r. r \<noteq> tail \<and> r \<notin> set xs \<and> r \<notin> set ys \<longrightarrow> nxt (link_rest q) r = nxt h r)"
proof (induction d xs ys arbitrary: h tail n1 n2 rule: merge_by.induct)
  case (1 d ys)
  let ?q = "(h, tail, None, n2)"
  from 1 have "merge_loop h tail n1 n2 = Some ?q"
    by (subst merge_loop.simps) simp
  moreover have "link_rest ?q = h\<lparr>nxt := (nxt h)(tail := n2)\<rparr>"
    by (simp add: link_rest_def)
  moreover from 1 have "llist (h\<lparr>nxt := (nxt h)(tail := n2)\<rparr>) (Some tail) (tail # ys)"
    by simp
  ultimately show ?case using "1.prems"(1) by (intro exI [of _ ?q]) simp
next
  case (2 d x xs)
  let ?q = "(h, tail, n1, None)"
  from 2 have n1: "n1 = Some x" by simp
  from 2 have "merge_loop h tail n1 n2 = Some ?q"
    by (subst merge_loop.simps) simp
  moreover have "link_rest ?q = h\<lparr>nxt := (nxt h)(tail := n1)\<rparr>"
    using n1 by (simp add: link_rest_def)
  moreover from 2 have t: "tail \<noteq> x" "tail \<notin> set xs" by auto
  moreover from 2 have "llist (h\<lparr>nxt := (nxt h)(tail := n1)\<rparr>) (Some tail) (tail # x # xs)"
    by simp
  ultimately show ?case using "2.prems"(1) by (intro exI [of _ ?q]) simp
next
  case (3 d x xs y ys)
  from "3.prems" have n: "n1 = Some x" "n2 = Some y"
    and tx: "llist h (nxt h x) xs" and ty: "llist h (nxt h y) ys"
    by simp_all
  from llist_distinct [OF "3.prems"(2)] llist_distinct [OF "3.prems"(3)]
  have dx: "x \<notin> set xs" and dy: "y \<notin> set ys" by simp_all
  from "3.prems" have ne: "tail \<noteq> x" "tail \<noteq> y" "x \<noteq> y" "x \<notin> set ys" "y \<notin> set xs"
    "tail \<notin> set xs" "tail \<notin> set ys" "set xs \<inter> set ys = {}"
    by auto
  show ?case
  proof (cases "d x \<le> d y")
    case True
    let ?h' = "h\<lparr>nxt := (nxt h)(tail := Some x)\<rparr>"
    have a: "data ?h' = d" using "3.prems"(1) by simp
    have b: "llist ?h' (nxt h x) xs" using tx ne by simp
    have c: "llist ?h' n2 (y # ys)" using "3.prems"(3) ne by simp
    have e: "set xs \<inter> set (y # ys) = {}" using ne by simp
    have f: "x \<notin> set (y # ys)" using ne by simp
    from "3.IH"(1) [OF True a b c e dx f] obtain q where
      r: "merge_loop ?h' x (nxt h x) n2 = Some q"
        "llist (link_rest q) (Some x) (x # merge_by d xs (y # ys))"
        "data (link_rest q) = d" "allocated (link_rest q) = allocated ?h'"
        "\<forall>r. r \<noteq> x \<and> r \<notin> set xs \<and> r \<notin> set (y # ys) \<longrightarrow>
           nxt (link_rest q) r = nxt ?h' r"
      by blast
    from r(5) ne have "nxt (link_rest q) tail = Some x" by simp
    with r(2) True have "llist (link_rest q) (Some tail) (tail # merge_by d (x # xs) (y # ys))"
      by simp
    moreover have "merge_loop h tail n1 n2 = Some q"
      using n True "3.prems"(1) ne r(1) by (subst merge_loop.simps) (simp add: Let_def)
    moreover have "\<forall>r. r \<noteq> tail \<and> r \<notin> set (x # xs) \<and> r \<notin> set (y # ys) \<longrightarrow>
        nxt (link_rest q) r = nxt h r"
      using r(5) by simp
    moreover have "allocated (link_rest q) = allocated h" using r(4) by simp
    ultimately show ?thesis using r(3) by blast
  next
    case False
    let ?h' = "h\<lparr>nxt := (nxt h)(tail := Some y)\<rparr>"
    have a: "data ?h' = d" using "3.prems"(1) by simp
    have b: "llist ?h' n1 (x # xs)" using "3.prems"(2) ne by simp
    have c: "llist ?h' (nxt h y) ys" using ty ne by simp
    have e: "set (x # xs) \<inter> set ys = {}" using ne by simp
    have f: "y \<notin> set (x # xs)" using ne by simp
    from "3.IH"(2) [OF False a b c e f dy] obtain q where
      r: "merge_loop ?h' y n1 (nxt h y) = Some q"
        "llist (link_rest q) (Some y) (y # merge_by d (x # xs) ys)"
        "data (link_rest q) = d" "allocated (link_rest q) = allocated ?h'"
        "\<forall>r. r \<noteq> y \<and> r \<notin> set (x # xs) \<and> r \<notin> set ys \<longrightarrow>
           nxt (link_rest q) r = nxt ?h' r"
      by blast
    from r(5) ne have "nxt (link_rest q) tail = Some y" by simp
    with r(2) False have "llist (link_rest q) (Some tail) (tail # merge_by d (x # xs) (y # ys))"
      by simp
    moreover have "merge_loop h tail n1 n2 = Some q"
      using n False "3.prems"(1) ne r(1) by (subst merge_loop.simps) (simp add: Let_def)
    moreover have "\<forall>r. r \<noteq> tail \<and> r \<notin> set (x # xs) \<and> r \<notin> set (y # ys) \<longrightarrow>
        nxt (link_rest q) r = nxt h r"
      using r(5) by simp
    moreover have "allocated (link_rest q) = allocated h" using r(4) by simp
    ultimately show ?thesis using r(3) by blast
  qed
qed

lemma merge_sorted_lists_nodes_llist:
  assumes x: "llist h n1 xs" and y: "llist h n2 ys" and dj: "set xs \<inter> set ys = {}"
    and sx: "in_store h xs" and sy: "in_store h ys"
  shows "\<exists>res h'. merge_sorted_lists_nodes h n1 n2 = Some (res, h') \<and>
    llist h' res (merge_by (data h) xs ys) \<and>
    (\<forall>r < allocated h. data h' r = data h r) \<and> allocated h' = Suc (allocated h) \<and>
    (\<forall>r. r < allocated h \<and> r \<notin> set xs \<and> r \<notin> set ys \<longrightarrow> nxt h' r = nxt h r)"
proof -
  let ?dummy = "allocated h"
  let ?h0 = "h\<lparr>data := (data h)(?dummy := 0), nxt := (nxt h)(?dummy := None),
    allocated := Suc ?dummy\<rparr>"
  from sx sy have fresh: "?dummy \<notin> set xs" "?dummy \<notin> set ys"
    unfolding in_store_def by auto
  have "llist ?h0 n1 xs = llist h n1 xs" "llist ?h0 n2 ys = llist h n2 ys"
    using fresh by (auto intro!: llist_cong)
  with x y have 0: "llist ?h0 n1 xs" "llist ?h0 n2 ys" by simp_all
  from merge_loop_llist [OF refl 0 dj fresh] obtain q where
    r: "merge_loop ?h0 ?dummy n1 n2 = Some q"
      "llist (link_rest q) (Some ?dummy) (?dummy # merge_by (data ?h0) xs ys)"
      "data (link_rest q) = data ?h0" "allocated (link_rest q) = allocated ?h0"
      "\<forall>r. r \<noteq> ?dummy \<and> r \<notin> set xs \<and> r \<notin> set ys \<longrightarrow> nxt (link_rest q) r = nxt ?h0 r"
    by blast
  have "merge_by (data ?h0) xs ys = merge_by (data h) xs ys"
    using fresh by (intro merge_by_cong) auto
  with r(2) have "llist (link_rest q) (nxt (link_rest q) ?dummy) (merge_by (data h) xs ys)"
    by simp
  moreover have "merge_sorted_lists_nodes h n1 n2 = Some (nxt (link_rest q) ?dummy, link_rest q)"
    using r(1)
    by (cases q) (simp add: merge_sorted_lists_nodes_def Node_init_def Let_def link_rest_def)
  moreover have "\<forall>r < allocated h. data (link_rest q) r = data h r"
    using r(3) by simp
  moreover have "\<forall>r. r < allocated h \<and> r \<notin> set xs \<and> r \<notin> set ys \<longrightarrow>
      nxt (link_rest q) r = nxt h r"
    using r(5) by simp
  moreover have "allocated (link_rest q) = Suc (allocated h)" using r(4) by simp
  ultimately show ?thesis by blast
qed

subsection \<open>The recursive sort\<close>

lemma sort_nodes_llist:
  "llist h p rs \<Longrightarrow> in_store h rs \<Longrightarrow>
   \<exists>res h' rs'. sort_nodes p h = Some (res, h') \<and> llist h' res rs' \<and>
     mset rs' = mset rs \<and> sorted (map (data h) rs') \<and>
     (\<forall>r < allocated h. data h' r = data h r) \<and> allocated h \<le> allocated h' \<and>
     (\<forall>r. r < allocated h \<and> r \<notin> set rs \<longrightarrow> nxt h' r = nxt h r) \<and>
     (length rs \<le> 1 \<longrightarrow> h' = h \<and> res = p)"
proof (induction "length rs" arbitrary: h p rs rule: less_induct)
  case less
  note l = less.prems(1) and s = less.prems(2)
  show ?case
  proof (cases "length rs \<le> 1")
    case True
    then consider "rs = []" | r where "rs = [r]"
      by (cases rs) (auto simp: le_Suc_eq)
    then have "sort_nodes p h = Some (p, h)"
    proof cases
      case 1
      with l show ?thesis by (subst sort_nodes.simps) simp
    next
      case 2
      with l show ?thesis by (subst sort_nodes.simps) simp
    qed
    moreover from True have "sorted (map (data h) rs)"
      by (cases rs) (auto simp: le_Suc_eq)
    ultimately show ?thesis using l by blast
  next
    case False
    then obtain r0 r1 rs2 where rs: "rs = r0 # r1 # rs2"
      by (cases rs; cases "tl rs") auto
    with l have p: "p = Some r0" "nxt h r0 = Some r1" by simp_all
    from llist_distinct [OF l] have dist: "distinct rs" .
    define m where "m = (length rs - 1) div 2"
    define mid where "mid = rs ! m"
    define lefts where "lefts = take (Suc m) rs"
    define rights where "rights = drop (Suc m) rs"
    from False have m: "m < length rs" "Suc m < length rs"
      unfolding m_def by presburger+
    have split: "rs = lefts @ rights" unfolding lefts_def rights_def by simp
    with dist have dj: "set lefts \<inter> set rights = {}" by simp
    from m have len: "length lefts < length rs" "length rights < length rs"
      unfolding lefts_def rights_def by simp_all
    from rs get_middle_llist [OF l] have gm: "get_middle h p = Some (Some mid)"
      unfolding mid_def m_def by simp
    let ?h1 = "h\<lparr>nxt := (nxt h)(mid := None)\<rparr>"
    from llist_take_cut [OF l m(1) dist] have l1: "llist ?h1 p lefts"
      unfolding lefts_def mid_def .
    from llist_drop_cut [OF l m(1)] have r1: "llist ?h1 (nxt h mid) rights"
      unfolding rights_def mid_def .
    from s split have s1: "in_store ?h1 lefts" and sr1: "in_store ?h1 rights"
      unfolding in_store_def by auto
    from less.hyps [OF len(1) l1 s1] obtain lres h2 ls where
      L: "sort_nodes p ?h1 = Some (lres, h2)" "llist h2 lres ls" "mset ls = mset lefts"
        "sorted (map (data ?h1) ls)" "\<forall>r < allocated ?h1. data h2 r = data ?h1 r"
        "allocated ?h1 \<le> allocated h2"
        "\<forall>r. r < allocated ?h1 \<and> r \<notin> set lefts \<longrightarrow> nxt h2 r = nxt ?h1 r"
      by blast
    from L(3) have setl: "set ls = set lefts" by (rule mset_eq_setD)
    have "\<forall>r \<in> set rights. nxt h2 r = nxt ?h1 r"
    proof
      fix r assume r: "r \<in> set rights"
      with sr1 have "r < allocated ?h1" unfolding in_store_def by blast
      moreover from r dj have "r \<notin> set lefts" by blast
      ultimately show "nxt h2 r = nxt ?h1 r" using L(7) by blast
    qed
    from llist_cong [OF this] r1 have r2: "llist h2 (nxt h mid) rights" by simp
    from sr1 L(6) have s2: "in_store h2 rights"
      unfolding in_store_def by auto
    from less.hyps [OF len(2) r2 s2] obtain rres h3 rs' where
      R: "sort_nodes (nxt h mid) h2 = Some (rres, h3)" "llist h3 rres rs'"
        "mset rs' = mset rights" "sorted (map (data h2) rs')"
        "\<forall>r < allocated h2. data h3 r = data h2 r" "allocated h2 \<le> allocated h3"
        "\<forall>r. r < allocated h2 \<and> r \<notin> set rights \<longrightarrow> nxt h3 r = nxt h2 r"
      by blast
    from R(3) have setr: "set rs' = set rights" by (rule mset_eq_setD)
    have "\<forall>r \<in> set ls. nxt h3 r = nxt h2 r"
    proof
      fix r assume "r \<in> set ls"
      with setl have r: "r \<in> set lefts" by simp
      with s1 L(6) have "r < allocated h2" unfolding in_store_def by fastforce
      moreover from r dj have "r \<notin> set rights" by blast
      ultimately show "nxt h3 r = nxt h2 r" using R(7) by blast
    qed
    from llist_cong [OF this] L(2) have l3: "llist h3 lres ls" by simp
    from s1 sr1 L(6) R(6) setl setr have s3: "in_store h3 ls" "in_store h3 rs'"
      unfolding in_store_def by auto
    from dj setl setr have dj3: "set ls \<inter> set rs' = {}" by simp
    from merge_sorted_lists_nodes_llist [OF l3 R(2) dj3 s3] obtain res h4 where
      M: "merge_sorted_lists_nodes h3 lres rres = Some (res, h4)"
        "llist h4 res (merge_by (data h3) ls rs')"
        "\<forall>r < allocated h3. data h4 r = data h3 r" "allocated h4 = Suc (allocated h3)"
        "\<forall>r. r < allocated h3 \<and> r \<notin> set ls \<and> r \<notin> set rs' \<longrightarrow> nxt h4 r = nxt h3 r"
      by blast
    let ?out = "merge_by (data h3) ls rs'"
    have run: "sort_nodes p h = Some (res, h4)"
      using p gm L(1) R(1) M(1) by (subst sort_nodes.simps) (simp add: Let_def)
    have out: "mset ?out = mset rs"
      using L(3) R(3) split by (simp add: mset_merge_by)
    have d3: "data h3 r = data h r" if "r < allocated h" for r
      using that L(5,6) R(5) by simp
    have old: "r < allocated h" if "r \<in> set rs" for r
      using that s unfolding in_store_def by blast
    have e: "map (data h3) ls = map (data h) ls" "map (data h3) rs' = map (data h) rs'"
      "map (data h2) rs' = map (data h) rs'"
      using d3 old setl setr split L(5) by auto
    have L4: "sorted (map (data h) ls)" using L(4) by simp
    have R4: "sorted (map (data h) rs')" using R(4) unfolding e(3) .
    have "sorted (map (data h3) ls)" unfolding e(1) by (rule L4)
    moreover have "sorted (map (data h3) rs')" unfolding e(2) by (rule R4)
    ultimately have so: "sorted (map (data h3) ?out)" by (rule sorted_merge_by)
    have eo: "map (data h3) ?out = map (data h) ?out"
      using d3 old setl setr split by (auto simp: set_merge_by)
    have srt: "sorted (map (data h) ?out)" using so unfolding eo .
    have dat: "\<forall>r < allocated h. data h4 r = data h r"
      using M(3) d3 L(6) R(6) by simp
    have alc: "allocated h \<le> allocated h4"
      using M(4) L(6) R(6) by simp
    have "mid \<in> set rs" unfolding mid_def using m(1) by simp
    have frm: "\<forall>r. r < allocated h \<and> r \<notin> set rs \<longrightarrow> nxt h4 r = nxt h r"
    proof (intro allI impI)
      fix r assume r: "r < allocated h \<and> r \<notin> set rs"
      with split setl setr have nl: "r \<notin> set lefts" "r \<notin> set rights" "r \<notin> set ls"
        "r \<notin> set rs'"
        by auto
      from r \<open>mid \<in> set rs\<close> have "r \<noteq> mid" by blast
      then have "nxt ?h1 r = nxt h r" by simp
      moreover from r nl L(7) have "nxt h2 r = nxt ?h1 r" by simp
      moreover from r nl L(6) R(7) have "nxt h3 r = nxt h2 r" by simp
      moreover from r nl L(6) R(6) M(5) have "nxt h4 r = nxt h3 r" by simp
      ultimately show "nxt h4 r = nxt h r" by simp
    qed
    show ?thesis
      using run M(2) out srt dat alc frm False by blast
  qed
qed

text \<open>
  C8. On a finite linked list, \<open>merge_sort_linked_list\<close> returns, and the returned list
  has the nodes of the input, each once and with its \<open>data\<close> unchanged, in an order in
  which \<open>to_list\<close> is sorted in non-decreasing order; so \<open>to_list\<close> of the result is a
  sorted permutation of \<open>to_list\<close> of the input. On a list of at most one node the list
  object and the store come back unchanged.
\<close>

theorem merge_sort_linked_list_correct:
  assumes "llist h (head l) rs" and "in_store h rs"
  shows "\<exists>l' h' rs' ys. merge_sort_linked_list h l = Some (l', h') \<and>
    llist h' (head l') rs' \<and> mset rs' = mset rs \<and>
    (\<forall>r < allocated h. data h' r = data h r) \<and>
    to_list h l = Some (map (data h) rs) \<and>
    to_list h' l' = Some ys \<and> sorted ys \<and> mset ys = mset (map (data h) rs) \<and>
    (length rs \<le> 1 \<longrightarrow> l' = l \<and> h' = h)"
proof -
  from sort_nodes_llist [OF assms] obtain res h' rs' where
    r: "sort_nodes (head l) h = Some (res, h')" "llist h' res rs'" "mset rs' = mset rs"
      "sorted (map (data h) rs')" "\<forall>r < allocated h. data h' r = data h r"
      "length rs \<le> 1 \<longrightarrow> h' = h \<and> res = head l"
    by blast
  let ?l' = "l\<lparr>head := res\<rparr>"
  have run: "merge_sort_linked_list h l = Some (?l', h')"
  proof (cases rs)
    case Nil
    with assms(1) r(6) show ?thesis by (simp add: merge_sort_linked_list_def)
  next
    case (Cons a as)
    with assms(1) r(1,6) show ?thesis
      by (cases as) (auto simp: merge_sort_linked_list_def)
  qed
  from r(3) have "set rs' = set rs" by (rule mset_eq_setD)
  with assms(2) r(5) have same: "map (data h') rs' = map (data h) rs'"
    unfolding in_store_def by auto
  from r(2) have "llist h' (head ?l') rs'" by simp
  from to_list_llist [OF this] same have tl: "to_list h' ?l' = Some (map (data h) rs')"
    by simp
  have "mset (map (data h) rs') = mset (map (data h) rs)"
    using r(3) by (metis mset_map)
  moreover have "length rs \<le> 1 \<longrightarrow> ?l' = l \<and> h' = h"
    using r(6) by simp
  ultimately show ?thesis
    using run r(2,3,4,5) tl to_list_llist [OF assms(1)] \<open>llist h' (head ?l') rs'\<close> by blast
qed

lemma demo_list_in_store: "in_store demo_store [0, 1, 2, 3, 4]"
  by (simp add: in_store_def demo_store_def)

theorem merge_sort_linked_list_correct_witness:
  "llist demo_store (head demo_list) [0, 1, 2, 3, 4] \<and> in_store demo_store [0, 1, 2, 3, 4] \<and>
   to_list demo_store demo_list = Some [5, 3, 8, 1, 9] \<and>
   (\<exists>l' h'. merge_sort_linked_list demo_store demo_list = Some (l', h') \<and>
      to_list h' l' = Some [1, 3, 5, 8, 9])"
proof -
  have v: "map (data demo_store) [0, 1, 2, 3, 4] = [5, 3, 8, 1, 9]"
    by (simp add: demo_store_def)
  from merge_sort_linked_list_correct [OF demo_list_llist demo_list_in_store] v
  obtain l' h' ys where
    r: "merge_sort_linked_list demo_store demo_list = Some (l', h')"
      "to_list demo_store demo_list = Some [5, 3, 8, 1, 9]"
      "to_list h' l' = Some ys" "sorted ys" "mset ys = mset [5, 3, 8, 1, 9]"
    by auto
  from r(5,4) have "sort [5, 3, 8, 1, 9] = ys" by (rule properties_for_sort)
  then have "ys = [1, 3, 5, 8, 9]" by simp
  with r demo_list_llist demo_list_in_store show ?thesis by blast
qed

section \<open>Properties of task6.py\<close>

subsection \<open>Selections as multisets\<close>

lemma cost_mset_simps [simp]:
  "cost_mset {#} = 0"
  "cost_mset (add_mset x M) = cost (snd x) + cost_mset M"
  "cost_mset (M + N) = cost_mset M + cost_mset N"
  by (simp_all add: cost_mset_def)

lemma calories_mset_simps [simp]:
  "calories_mset {#} = 0"
  "calories_mset (add_mset x M) = calories (snd x) + calories_mset M"
  "calories_mset (M + N) = calories_mset M + calories_mset N"
  by (simp_all add: calories_mset_def)

lemma cost_mset_replicate [simp]: "cost_mset (replicate_mset n x) = int n * cost (snd x)"
  by (induction n) (simp_all add: algebra_simps)

lemma calories_mset_replicate [simp]:
  "calories_mset (replicate_mset n x) = int n * calories (snd x)"
  by (induction n) (simp_all add: algebra_simps)

lemma set_selection_mset: "set_mset (selection_mset its sel) \<subseteq> set its"
proof (induction its sel rule: selection_mset.induct)
  case (1 its)
  show ?case by simp
next
  case (2 its name quantity rest)
  then show ?case
    by (auto split: option.splits if_splits dest: map_of_SomeD)
qed

lemma totals_selection:
  "sel_ok its sel \<Longrightarrow>
     for_each (totals_step its) sel (a, b) =
       Inr (a + cost_mset (selection_mset its sel), b + calories_mset (selection_mset its sel))"
proof (induction sel arbitrary: a b)
  case Nil
  then show ?case by simp
next
  case (Cons e sel)
  obtain name q where e: "e = (name, q)" by (cases e)
  from Cons.prems e obtain info where i: "map_of its name = Some info" and q: "0 < q"
    and rest: "sel_ok its sel"
    unfolding sel_ok_def by auto
  from Cons.IH [OF rest] e i q show ?case
    by (simp add: totals_step_def dict_item_def algebra_simps)
qed

lemma calculate_totals_selection:
  "sel_ok its sel \<Longrightarrow>
     calculate_totals its sel =
       Inr (cost_mset (selection_mset its sel), calories_mset (selection_mset its sel))"
  unfolding calculate_totals_def by (simp add: totals_selection)

lemma selection_mset_increment:
  assumes "map_of its name = Some info"
  shows "sel_ok its sel \<Longrightarrow>
     selection_mset its
       (AList.update name ((case map_of sel name of None \<Rightarrow> 0 | Some q \<Rightarrow> q) + 1) sel) =
     add_mset (name, info) (selection_mset its sel) \<and>
     sel_ok its
       (AList.update name ((case map_of sel name of None \<Rightarrow> 0 | Some q \<Rightarrow> q) + 1) sel)"
proof (induction sel)
  case Nil
  with assms show ?case by (simp add: sel_ok_def)
next
  case (Cons e sel)
  obtain n q where e: "e = (n, q)" by (cases e)
  from Cons.prems e have q: "0 < q" and n: "map_of its n \<noteq> None" and rest: "sel_ok its sel"
    unfolding sel_ok_def by auto
  show ?case
  proof (cases "n = name")
    case True
    from q have "nat (q + 1) = Suc (nat q)" by simp
    with True e assms q rest Cons.prems show ?thesis
      by (simp add: sel_ok_def)
  next
    case False
    with Cons.IH [OF rest] e n q show ?thesis
      by (auto simp: sel_ok_def split: option.splits)
  qed
qed

lemma selection_mset_new:
  assumes "map_of its name = Some info" and "0 < q"
  shows "sel_ok its sel \<Longrightarrow> name \<notin> fst ` set sel \<Longrightarrow>
     selection_mset its (AList.update name q sel) =
       selection_mset its sel + replicate_mset (nat q) (name, info) \<and>
     sel_ok its (AList.update name q sel)"
proof (induction sel)
  case Nil
  with assms show ?case by (simp add: sel_ok_def)
next
  case (Cons e sel)
  obtain n k where e: "e = (n, k)" by (cases e)
  from Cons.prems e have ne: "n \<noteq> name" and rest: "sel_ok its sel"
    "name \<notin> fst ` set sel" and k: "0 < k" "map_of its n \<noteq> None"
    unfolding sel_ok_def by auto
  from Cons.IH [OF rest] e ne k show ?case
    by (auto simp: sel_ok_def split: option.splits)
qed

subsection \<open>Indexing\<close>

lemma list_item_nat: "0 \<le> i \<Longrightarrow> i < int (length xs) \<Longrightarrow> list_item xs i = Inr (xs ! nat i)"
  by (simp add: list_item_def)

lemma items_ok_lookup:
  assumes "items_ok its" and "x \<in> set its"
  shows "map_of its (fst x) = Some (snd x) \<and> 0 < cost (snd x)"
  using assms unfolding items_ok_def by (cases x) auto

subsection \<open>The inner loop of \<open>dynamic_programming\<close>\<close>

lemma dp_step_inner:
  assumes ok: "items_ok its" and x: "x \<in> set its" and w: "1 \<le> w" "w \<le> budget"
    and i: "dp_inner its budget w D st"
  shows "\<exists>st'. dp_step its w (fst x) st = Inr st' \<and> dp_inner its budget w (insert (fst x) D) st'"
proof -
  obtain dp choices where st: "st = (dp, choices)" by (cases st)
  let ?c = "cost (snd x)" and ?cal = "calories (snd x)"
  from items_ok_lookup [OF ok x] have look: "map_of its (fst x) = Some (snd x)"
    and pos: "0 < ?c"
    by simp_all
  from i st have len: "length dp = nat (budget + 1)" "length choices = nat (budget + 1)"
    and below: "\<forall>v. 0 \<le> v \<and> v < w \<longrightarrow>
      good_entry its v (dp ! nat v) (choices ! nat v) \<and> optimal_at its v (dp ! nat v)"
    and above: "\<forall>v. w < v \<and> v \<le> budget \<longrightarrow> dp ! nat v = 0 \<and> choices ! nat v = []"
    and at: "good_entry its w (dp ! nat w) (choices ! nat w)" "0 \<le> dp ! nat w"
    and prior: "\<forall>y \<in> set its. fst y \<in> D \<longrightarrow> cost (snd y) \<le> w \<longrightarrow>
      dp ! nat (w - cost (snd y)) + calories (snd y) \<le> dp ! nat w"
    unfolding dp_inner_def by simp_all
  have same_name: "snd y = snd x" if "y \<in> set its" "fst y = fst x" for y
    using items_ok_lookup [OF ok that(1)] look that(2) by simp
  show ?thesis
  proof (cases "?c \<le> w")
    case False
    then have "dp_step its w (fst x) st = Inr st"
      using st look by (simp add: dp_step_def dict_item_def)
    moreover have "dp_inner its budget w (insert (fst x) D) st"
      unfolding dp_inner_def st using len below above at prior False same_name
      by auto
    ultimately show ?thesis by blast
  next
    case True
    let ?i = "w - ?c"
    from True pos w len have idx: "0 \<le> ?i" "?i < w" "?i < int (length dp)"
      "?i < int (length choices)" "0 \<le> w" "w < int (length dp)" "w < int (length choices)"
      "nat ?i \<noteq> nat w" "nat w < length dp" "nat w < length choices"
      by auto
    let ?new = "dp ! nat ?i + ?cal"
    have g1: "list_item dp ?i = Inr (dp ! nat ?i)" using idx by (intro list_item_nat)
    have g2: "list_item dp w = Inr (dp ! nat w)" using idx by (intro list_item_nat)
    have g3: "list_item choices ?i = Inr (choices ! nat ?i)" using idx by (intro list_item_nat)
    show ?thesis
    proof (cases "?new > dp ! nat w")
      case False
      then have "dp_step its w (fst x) st = Inr st"
        using st look True g1 g2 by (simp add: dp_step_def dict_item_def Let_def)
      moreover have "dp_inner its budget w (insert (fst x) D) st"
        unfolding dp_inner_def st using len below above at prior False same_name
        by auto
      ultimately show ?thesis by blast
    next
      case better: True
      let ?prev = "choices ! nat ?i"
      let ?ch = "AList.update (fst x)
        ((case map_of ?prev (fst x) of None \<Rightarrow> 0 | Some q \<Rightarrow> q) + 1) ?prev"
      let ?st' = "(dp[nat w := ?new], choices[nat w := ?ch])"
      have run: "dp_step its w (fst x) st = Inr ?st'"
        using st look True g1 g2 g3 better by (simp add: dp_step_def dict_item_def Let_def)
      from below idx have prev: "good_entry its ?i (dp ! nat ?i) ?prev" by blast
      then have pok: "sel_ok its ?prev" unfolding good_entry_def by simp
      from selection_mset_increment [OF look pok]
      have inc: "selection_mset its ?ch = add_mset (fst x, snd x) (selection_mset its ?prev)"
        "sel_ok its ?ch"
        by simp_all
      have new_good: "good_entry its w ?new ?ch"
        using prev inc unfolding good_entry_def by simp
      have other: "dp[nat w := ?new] ! nat v = dp ! nat v \<and>
          choices[nat w := ?ch] ! nat v = choices ! nat v" if "0 \<le> v" "v \<noteq> w" for v
        using that idx by (simp add: nat_eq_iff)
      have "dp_inner its budget w (insert (fst x) D) ?st'"
        unfolding dp_inner_def
      proof (simp only: prod.case, intro conjI allI impI ballI)
        show "length (dp[nat w := ?new]) = nat (budget + 1)" using len by simp
        show "length (choices[nat w := ?ch]) = nat (budget + 1)" using len by simp
      next
        fix v assume v: "0 \<le> v \<and> v < w"
        with other [of v] below
        show "good_entry its v (dp[nat w := ?new] ! nat v) (choices[nat w := ?ch] ! nat v)"
          and "optimal_at its v (dp[nat w := ?new] ! nat v)"
          by simp_all
      next
        fix v assume v: "w < v \<and> v \<le> budget"
        with other [of v] above w
        show "dp[nat w := ?new] ! nat v = 0" and "choices[nat w := ?ch] ! nat v = []"
          by simp_all
      next
        show "good_entry its w (dp[nat w := ?new] ! nat w) (choices[nat w := ?ch] ! nat w)"
          using new_good idx by simp
        show "0 \<le> dp[nat w := ?new] ! nat w"
          using at(2) better idx by simp
      next
        fix y assume y: "y \<in> set its" "fst y \<in> insert (fst x) D" "cost (snd y) \<le> w"
        from items_ok_lookup [OF ok y(1)] have py: "0 < cost (snd y)" by simp
        with y(3) have iy: "0 \<le> w - cost (snd y)" "w - cost (snd y) \<noteq> w" by simp_all
        from other [OF iy] have
          low: "dp[nat w := ?new] ! nat (w - cost (snd y)) = dp ! nat (w - cost (snd y))"
          by simp
        have top: "dp[nat w := ?new] ! nat w = ?new" using idx by simp
        show "dp[nat w := ?new] ! nat (w - cost (snd y)) + calories (snd y)
            \<le> dp[nat w := ?new] ! nat w"
        proof (cases "fst y = fst x")
          case True
          with same_name [OF y(1)] low top show ?thesis by simp
        next
          case False
          with y prior have "dp ! nat (w - cost (snd y)) + calories (snd y) \<le> dp ! nat w"
            by blast
          with low top better show ?thesis by simp
        qed
      qed
      with run show ?thesis by blast
    qed
  qed
qed

lemma dp_inner_loop:
  assumes ok: "items_ok its" and w: "1 \<le> w" "w \<le> budget"
  shows "set xs \<subseteq> set its \<Longrightarrow> dp_inner its budget w D st \<Longrightarrow>
    \<exists>st'. for_each (dp_step its w) (map fst xs) st = Inr st' \<and>
      dp_inner its budget w (D \<union> fst ` set xs) st'"
proof (induction xs arbitrary: D st)
  case Nil
  then show ?case by simp
next
  case (Cons x xs)
  from Cons.prems have x: "x \<in> set its" and xs: "set xs \<subseteq> set its" by simp_all
  from dp_step_inner [OF ok x w Cons.prems(2)] obtain st1 where
    1: "dp_step its w (fst x) st = Inr st1" "dp_inner its budget w (insert (fst x) D) st1"
    by blast
  from Cons.IH [OF xs 1(2)] obtain st2 where
    2: "for_each (dp_step its w) (map fst xs) st1 = Inr st2"
      "dp_inner its budget w (insert (fst x) D \<union> fst ` set xs) st2"
    by blast
  have "insert (fst x) D \<union> fst ` set xs = D \<union> fst ` set (x # xs)" by auto
  with 2(2) have "dp_inner its budget w (D \<union> fst ` set (x # xs)) st2" by simp
  moreover have "for_each (dp_step its w) (map fst (x # xs)) st = Inr st2"
    using 1(1) 2(1) by simp
  ultimately show ?case by blast
qed

subsection \<open>The outer loop of \<open>dynamic_programming\<close>\<close>

lemma cost_mset_nonneg:
  assumes "items_ok its"
  shows "set_mset M \<subseteq> set its \<Longrightarrow> 0 \<le> cost_mset M"
proof (induction M)
  case empty
  show ?case by simp
next
  case (add x M)
  then have "x \<in> set its" "0 \<le> cost_mset M" by simp_all
  with items_ok_lookup [OF assms, of x] show ?case by simp
qed

lemma optimal_from_inner:
  assumes ok: "items_ok its" and w: "1 \<le> w"
    and i: "dp_inner its budget w (fst ` set its) (dp, choices)"
  shows "optimal_at its w (dp ! nat w)"
  unfolding optimal_at_def
proof (intro allI impI)
  fix M assume a: "affordable its w M"
  from i have below: "\<forall>v. 0 \<le> v \<and> v < w \<longrightarrow> optimal_at its v (dp ! nat v)"
    and nonneg: "0 \<le> dp ! nat w"
    and all: "\<forall>x \<in> set its. fst x \<in> fst ` set its \<longrightarrow> cost (snd x) \<le> w \<longrightarrow>
      dp ! nat (w - cost (snd x)) + calories (snd x) \<le> dp ! nat w"
    unfolding dp_inner_def by simp_all
  show "calories_mset M \<le> dp ! nat w"
  proof (cases M)
    case empty
    with nonneg show ?thesis by simp
  next
    case (add x M')
    with a have x: "x \<in> set its" and sub: "set_mset M' \<subseteq> set its"
      and c: "cost (snd x) + cost_mset M' \<le> w"
      unfolding affordable_def by simp_all
    from items_ok_lookup [OF ok x] have pos: "0 < cost (snd x)" by simp
    from cost_mset_nonneg [OF ok sub] c have le: "cost (snd x) \<le> w" by simp
    from sub c have "affordable its (w - cost (snd x)) M'"
      unfolding affordable_def by simp
    moreover from below pos le have "optimal_at its (w - cost (snd x)) (dp ! nat (w - cost (snd x)))"
      by simp
    ultimately have "calories_mset M' \<le> dp ! nat (w - cost (snd x))"
      unfolding optimal_at_def by blast
    moreover from all x le have
      "dp ! nat (w - cost (snd x)) + calories (snd x) \<le> dp ! nat w"
      by blast
    ultimately show ?thesis using add by simp
  qed
qed

lemma dp_outer_step:
  assumes ok: "items_ok its" and w: "1 \<le> w" "w \<le> budget"
    and i: "dp_inv its budget (w - 1) st"
  shows "\<exists>st'. for_each (dp_step its w) (map fst its) st = Inr st' \<and> dp_inv its budget w st'"
proof -
  obtain dp choices where st: "st = (dp, choices)" by (cases st)
  from i st w have z: "dp ! nat w = 0" "choices ! nat w = []"
    unfolding dp_inv_def by simp_all
  have "good_entry its w 0 []" using w by (simp add: good_entry_def sel_ok_def)
  with i st z have "dp_inner its budget w {} st"
    unfolding dp_inv_def dp_inner_def by simp
  from dp_inner_loop [OF ok w subset_refl this] obtain st' where
    r: "for_each (dp_step its w) (map fst its) st = Inr st'"
      "dp_inner its budget w (fst ` set its) st'"
    by auto
  obtain dp' choices' where st': "st' = (dp', choices')" by (cases st')
  from optimal_from_inner [OF ok w(1)] r(2) st' have "optimal_at its w (dp' ! nat w)"
    by simp
  with r(2) st' have "dp_inv its budget w st'"
    unfolding dp_inv_def dp_inner_def
    by (auto simp: order_le_less)
  with r(1) show ?thesis by blast
qed

lemma dp_outer_loop:
  assumes ok: "items_ok its"
  shows "1 \<le> i \<Longrightarrow> i \<le> budget + 1 \<Longrightarrow> dp_inv its budget (i - 1) st \<Longrightarrow>
    \<exists>st'. for_each (\<lambda>w. for_each (dp_step its w) (map fst its)) [i..budget] st = Inr st' \<and>
      dp_inv its budget budget st'"
proof (induction "nat (budget + 1 - i)" arbitrary: i st)
  case 0
  then have "i = budget + 1" by simp
  with "0.prems" show ?case by simp
next
  case (Suc n)
  then have i: "i \<le> budget" by simp
  from dp_outer_step [OF ok Suc.prems(1) i Suc.prems(3)] obtain st1 where
    1: "for_each (dp_step its i) (map fst its) st = Inr st1" "dp_inv its budget i st1"
    by blast
  from Suc.hyps(2) have "n = nat (budget + 1 - (i + 1))" by simp
  from Suc.hyps(1) [OF this, of st1] Suc.prems(1) i 1(2) obtain st' where
    2: "for_each (\<lambda>w. for_each (dp_step its w) (map fst its)) [i + 1..budget] st1 = Inr st'"
      "dp_inv its budget budget st'"
    by auto
  from i have "[i..budget] = i # [i + 1..budget]" by (simp add: upto_rec1)
  with 1(1) 2 show ?case by simp
qed

lemma dp_init:
  assumes ok: "items_ok its" and b: "0 \<le> budget"
  shows "dp_inv its budget 0 (replicate (nat (budget + 1)) 0, replicate (nat (budget + 1)) [])"
proof -
  have "optimal_at its 0 0"
    unfolding optimal_at_def
  proof (intro allI impI)
    fix M assume a: "affordable its 0 M"
    show "calories_mset M \<le> 0"
    proof (cases M)
      case empty
      then show ?thesis by simp
    next
      case (add x M')
      with a have x: "x \<in> set its" and sub: "set_mset M' \<subseteq> set its"
        and c: "cost (snd x) + cost_mset M' \<le> 0"
        unfolding affordable_def by simp_all
      from items_ok_lookup [OF ok x] cost_mset_nonneg [OF ok sub] c show ?thesis by simp
    qed
  qed
  moreover have "good_entry its 0 0 []" by (simp add: good_entry_def sel_ok_def)
  ultimately show ?thesis
    using b unfolding dp_inv_def by (auto simp: nat_less_iff)
qed

lemma dynamic_programming_optimal:
  assumes ok: "items_ok its" and b: "0 \<le> budget"
  shows "\<exists>sel. dynamic_programming its budget = Inr sel \<and> sel_ok its sel \<and>
    cost_mset (selection_mset its sel) \<le> budget \<and>
    optimal_at its budget (calories_mset (selection_mset its sel))"
proof -
  let ?n = "nat (budget + 1)"
  from dp_outer_loop [OF ok _ _ , of 1 budget "(replicate ?n 0, replicate ?n [])"]
    dp_init [OF ok b] b
  obtain st' where
    r: "for_each (\<lambda>w. for_each (dp_step its w) (map fst its)) [1..budget]
          (replicate ?n 0, replicate ?n []) = Inr st'"
      "dp_inv its budget budget st'"
    by auto
  obtain dp choices where st': "st' = (dp, choices)" by (cases st')
  from r(2) st' b have len: "length choices = ?n"
    and g: "good_entry its budget (dp ! nat budget) (choices ! nat budget)"
    and o: "optimal_at its budget (dp ! nat budget)"
    unfolding dp_inv_def by simp_all
  from len b have "list_item choices budget = Inr (choices ! nat budget)"
    by (intro list_item_nat) simp_all
  with r(1) st' have "dynamic_programming its budget = Inr (choices ! nat budget)"
    by (simp add: dynamic_programming_def Let_def)
  with g o show ?thesis
    unfolding good_entry_def by auto
qed

subsection \<open>The greedy loop\<close>

lemma ratios_loop_names:
  "\<forall>x \<in> set its. cost (snd x) \<noteq> 0 \<Longrightarrow> ratios_in_range its \<Longrightarrow>
     \<exists>ratios. ratios_loop its = Inr ratios \<and> map fst ratios = map fst its"
proof (induction its)
  case Nil
  then show ?case
    by simp
next
  case (Cons x its)
  obtain name info where x: "x = (name, info)"
    by (cases x)
  from Cons.prems have "cost info \<noteq> 0"
    by (simp add: x)
  then obtain q where q: "true_div (calories info) (cost info) = Inr (Finite q)"
    using Cons.prems(2) by (cases rule: true_div_cases) (auto simp: ratios_in_range_def x)
  from Cons.prems have "\<forall>x \<in> set its. cost (snd x) \<noteq> 0" "ratios_in_range its"
    by (simp_all add: ratios_in_range_def)
  from Cons.IH [OF this] q show ?case
    by (auto simp: x)
qed

lemma ratios_loop_overflow:
  "\<forall>x \<in> set its. cost (snd x) \<noteq> 0 \<Longrightarrow> \<not> ratios_in_range its \<Longrightarrow>
     ratios_loop its = Inl OverflowError"
proof (induction its)
  case Nil
  then show ?case
    by (simp add: ratios_in_range_def)
next
  case (Cons x its)
  obtain name info where x: "x = (name, info)"
    by (cases x)
  from Cons.prems have "cost info \<noteq> 0"
    by (simp add: x)
  then show ?case
  proof (cases rule: true_div_cases [of _ "calories info"])
    case (1 q)
    with Cons.prems(2) have "\<not> ratios_in_range its"
      by (simp add: ratios_in_range_def x)
    moreover from Cons.prems(1) have "\<forall>x \<in> set its. cost (snd x) \<noteq> 0"
      by simp
    ultimately have "ratios_loop its = Inl OverflowError"
      by (intro Cons.IH)
    with 1 show ?thesis
      by (simp add: x)
  next
    case 2
    then show ?thesis
      by (simp add: x)
  qed
qed

lemma mset_sort_reverse: "mset (sort_reverse key xs) = mset xs"
  by (simp add: sort_reverse_def)

lemma greedy_step_eq:
  assumes "map_of its name = Some info" and "cost info \<noteq> 0"
  shows "greedy_step its name (sel, r) =
    Inr (if r div cost info > 0
         then (AList.update name (r div cost info) sel, r - r div cost info * cost info)
         else (sel, r))"
  using assms by (simp add: greedy_step_def dict_item_def Let_def del: minus_div_mult_eq_mod)

lemma greedy_loop:
  assumes ok: "items_ok its"
  shows "distinct names \<Longrightarrow> set names \<subseteq> fst ` set its \<Longrightarrow> sel_ok its sel \<Longrightarrow>
    fst ` set sel \<inter> set names = {} \<Longrightarrow> 0 \<le> remaining \<Longrightarrow>
    \<exists>sel' remaining'. for_each (greedy_step its) names (sel, remaining) = Inr (sel', remaining') \<and>
      sel_ok its sel' \<and> 0 \<le> remaining' \<and>
      cost_mset (selection_mset its sel') + remaining' =
        cost_mset (selection_mset its sel) + remaining"
proof (induction names arbitrary: sel remaining)
  case Nil
  then show ?case by simp
next
  case (Cons name names)
  from Cons.prems(2) obtain x where x: "x \<in> set its" "fst x = name" by auto
  from items_ok_lookup [OF ok x(1)] x(2) have look: "map_of its name = Some (snd x)"
    and pos: "0 < cost (snd x)"
    by simp_all
  define c where "c = cost (snd x)"
  define q where "q = remaining div c"
  define rem1 where "rem1 = remaining - q * c"
  from Cons.prems have rest: "distinct names" "set names \<subseteq> fst ` set its"
    and fresh: "name \<notin> fst ` set sel" "name \<notin> set names"
    and dj0: "fst ` set sel \<inter> set names = {}"
    by auto
  show ?case
  proof (cases "q > 0")
    case True
    define sel1 where "sel1 = AList.update name q sel"
    from pos have "cost (snd x) \<noteq> 0" by simp
    from greedy_step_eq [OF look this, of sel remaining] True
    have step: "greedy_step its name (sel, remaining) = Inr (sel1, rem1)"
      unfolding c_def q_def rem1_def sel1_def by (simp only: if_True)
    from selection_mset_new [OF look True Cons.prems(3) fresh(1)] have
      new: "selection_mset its sel1 = selection_mset its sel + replicate_mset (nat q) (name, snd x)"
        "sel_ok its sel1"
      unfolding sel1_def by simp_all
    have "rem1 = remaining mod c"
      unfolding rem1_def q_def by (rule minus_div_mult_eq_mod)
    moreover from pos have "0 \<le> remaining mod c" unfolding c_def by simp
    ultimately have r1: "0 \<le> rem1" by simp
    have "fst ` set sel1 = insert name (fst ` set sel)"
      unfolding sel1_def by (simp add: AList.dom_update)
    then have "fst ` set sel1 \<inter> set names = insert name (fst ` set sel) \<inter> set names"
      by (rule arg_cong)
    also have "\<dots> = {}" using dj0 fresh(2) by simp
    finally have dj: "fst ` set sel1 \<inter> set names = {}" .
    from Cons.IH [OF rest new(2) dj r1] obtain sel' remaining' where
      r: "for_each (greedy_step its) names (sel1, rem1) = Inr (sel', remaining')"
        "sel_ok its sel'" "0 \<le> remaining'"
        "cost_mset (selection_mset its sel') + remaining' =
           cost_mset (selection_mset its sel1) + rem1"
      by blast
    from True have "int (nat q) = q" by simp
    then have "cost_mset (selection_mset its sel1) = cost_mset (selection_mset its sel) + q * c"
      unfolding new(1) c_def by simp
    with r(4) have "cost_mset (selection_mset its sel') + remaining' =
        cost_mset (selection_mset its sel) + remaining"
      unfolding rem1_def by linarith
    moreover have "for_each (greedy_step its) (name # names) (sel, remaining) =
        Inr (sel', remaining')"
      using step r(1) by simp
    ultimately show ?thesis using r(2,3) by blast
  next
    case False
    from pos have "cost (snd x) \<noteq> 0" by simp
    from greedy_step_eq [OF look this, of sel remaining] False
    have step: "greedy_step its name (sel, remaining) = Inr (sel, remaining)"
      unfolding c_def q_def by (simp only: if_False)
    from Cons.IH [OF rest Cons.prems(3) dj0 Cons.prems(5)] obtain sel' remaining' where
      r: "for_each (greedy_step its) names (sel, remaining) = Inr (sel', remaining')"
        "sel_ok its sel'" "0 \<le> remaining'"
        "cost_mset (selection_mset its sel') + remaining' =
           cost_mset (selection_mset its sel) + remaining"
      by blast
    have "for_each (greedy_step its) (name # names) (sel, remaining) = Inr (sel', remaining')"
      using step r(1) by simp
    with r(2-4) show ?thesis by blast
  qed
qed

lemma greedy_algorithm_affordable:
  assumes ok: "items_ok its" and b: "0 \<le> budget" and ra: "ratios_in_range its"
  shows "\<exists>sel. greedy_algorithm its budget = Inr sel \<and> sel_ok its sel \<and>
    cost_mset (selection_mset its sel) \<le> budget"
proof -
  from ok have "\<forall>x \<in> set its. cost (snd x) \<noteq> 0"
    unfolding items_ok_def by fastforce
  from ratios_loop_names [OF this ra] obtain ratios where
    ra: "ratios_loop its = Inr ratios" "map fst ratios = map fst its"
    by blast
  let ?names = "map fst (sort_reverse snd ratios)"
  have "mset ?names = mset (map fst its)"
    using ra(2) by (metis mset_map mset_sort_reverse)
  then have d: "distinct ?names" and s: "set ?names \<subseteq> fst ` set its"
    using ok unfolding items_ok_def
    by (metis mset_eq_imp_distinct_iff, metis list.set_map mset_eq_setD subset_refl)
  have e: "sel_ok its []" "fst ` set [] \<inter> set ?names = {}"
    by (simp_all add: sel_ok_def)
  from greedy_loop [OF ok d s e b] obtain sel' remaining' where
    r: "for_each (greedy_step its) ?names ([], budget) = Inr (sel', remaining')"
      "sel_ok its sel'" "0 \<le> remaining'"
      "cost_mset (selection_mset its sel') + remaining' = cost_mset (selection_mset its []) + budget"
    by blast
  from ra(1) r(1) have "greedy_algorithm its budget = Inr sel'"
    by (simp add: greedy_algorithm_def)
  with r(2-4) show ?thesis
    by simp
qed

lemma greedy_algorithm_overflow:
  assumes ok: "items_ok its" and ra: "\<not> ratios_in_range its"
  shows "greedy_algorithm its budget = Inl OverflowError"
proof -
  from ok have "\<forall>x \<in> set its. cost (snd x) \<noteq> 0"
    unfolding items_ok_def by fastforce
  from ratios_loop_overflow [OF this ra] show ?thesis
    by (simp add: greedy_algorithm_def)
qed

subsection \<open>The claims about the two algorithms\<close>

lemma menu_ok: "items_ok menu"
  by (simp add: items_ok_def menu_def)

lemma menu_ratios:
  "true_div 300 50 = Inr (Finite 6)"
  "true_div 250 40 = Inr (Finite (25 / 4))"
  "true_div 200 30 = Inr (Finite (7505999378950827 / 2 ^ 50))"
  "true_div 100 10 = Inr (Finite 10)"
  "true_div 220 15 = Inr (Finite (8256599316845909 / 2 ^ 49))"
  "true_div 350 25 = Inr (Finite 14)"
proof -
  have "round_double (25 / 4) = Finite (of_int 7036874417766400 / 2 ^ 50)"
    by (rule round_double_near) simp_all
  moreover have "round_double (20 / 3) = Finite (of_int 7505999378950827 / 2 ^ 50)"
    by (rule round_double_near) simp_all
  moreover have "round_double (44 / 3) = Finite (of_int 8256599316845909 / 2 ^ 49)"
    by (rule round_double_near) simp_all
  ultimately show
    "true_div 300 50 = Inr (Finite 6)"
    "true_div 250 40 = Inr (Finite (25 / 4))"
    "true_div 200 30 = Inr (Finite (7505999378950827 / 2 ^ 50))"
    "true_div 100 10 = Inr (Finite 10)"
    "true_div 220 15 = Inr (Finite (8256599316845909 / 2 ^ 49))"
    "true_div 350 25 = Inr (Finite 14)"
    by (simp_all add: true_div_def)
qed

lemma menu_in_range: "ratios_in_range menu"
  by (simp add: ratios_in_range_def menu_def menu_ratios)

lemma menu_greedy: "greedy_algorithm menu 50 = Inr [(''cola'', 3)]"
  by (simp add: greedy_algorithm_def menu_def menu_ratios sort_reverse_def greedy_step_def
      dict_item_def Let_def)

lemma menu_runs:
  "dynamic_programming menu 50 = Inr [(''potato'', 2)]"
  "calculate_totals menu [(''potato'', 2)] = Inr (50, 700)"
  "calculate_totals menu [(''cola'', 3)] = Inr (45, 660)"
  by code_simp+

lemma big_menu_ok: "items_ok big_menu"
  by (simp add: items_ok_def big_menu_def)

lemma big_menu_overflow: "true_div (10 ^ 400) 1 = Inl OverflowError"
proof -
  have "(2::rat) ^ 1024 \<le> of_int (10 ^ 400) / of_int 1"
    by simp
  then have "round_double (of_int (10 ^ 400) / of_int 1) = PInf"
    by (rule round_double_overflow)
  then show ?thesis
    by (simp only: true_div_def pyfloat.case) simp
qed

lemma big_menu_greedy: "greedy_algorithm big_menu 1 = Inl OverflowError"
  using big_menu_overflow by (simp add: greedy_algorithm_def big_menu_def)

text \<open>
  C6. For a dictionary of items with costs above 0 and a budget \<open>\<ge> 0\<close>,
  \<open>dynamic_programming\<close> returns a selection of items of the dictionary, with quantities
  above 0, for which \<open>calculate_totals\<close> gives a total cost of at most the budget and
  total calories that no multiset of the items with a cost of at most the budget exceeds.
\<close>

theorem dynamic_programming_correct:
  assumes "items_ok its" and "0 \<le> budget"
  shows "\<exists>sel total_cost total_calories.
    dynamic_programming its budget = Inr sel \<and>
    calculate_totals its sel = Inr (total_cost, total_calories) \<and>
    total_cost \<le> budget \<and>
    affordable its budget (selection_mset its sel) \<and>
    calories_mset (selection_mset its sel) = total_calories \<and>
    (\<forall>M. affordable its budget M \<longrightarrow> calories_mset M \<le> total_calories)"
proof -
  from dynamic_programming_optimal [OF assms] obtain sel where
    r: "dynamic_programming its budget = Inr sel" "sel_ok its sel"
      "cost_mset (selection_mset its sel) \<le> budget"
      "optimal_at its budget (calories_mset (selection_mset its sel))"
    by blast
  from r(3) have "affordable its budget (selection_mset its sel)"
    unfolding affordable_def using set_selection_mset by simp
  with r calculate_totals_selection [OF r(2)] show ?thesis
    unfolding optimal_at_def by auto
qed

theorem dynamic_programming_correct_witness:
  "items_ok menu \<and> (0::int) \<le> 50 \<and>
   dynamic_programming menu 50 = Inr [(''potato'', 2)] \<and>
   calculate_totals menu [(''potato'', 2)] = Inr (50, 700) \<and>
   affordable menu 50 {#(''pepsi'', \<lparr>cost = 10, calories = 100\<rparr>),
                       (''hamburger'', \<lparr>cost = 40, calories = 250\<rparr>)#} \<and>
   calories_mset {#(''pepsi'', \<lparr>cost = 10, calories = 100\<rparr>),
                   (''hamburger'', \<lparr>cost = 40, calories = 250\<rparr>)#} \<le> 700"
proof -
  let ?M = "{#(''pepsi'', \<lparr>cost = 10, calories = 100\<rparr>),
             (''hamburger'', \<lparr>cost = 40, calories = 250\<rparr>)#}"
  have a: "affordable menu 50 ?M"
    by (simp add: affordable_def menu_def)
  from dynamic_programming_correct [OF menu_ok, of 50] menu_runs(1,2) a
  have "calories_mset ?M \<le> 700" by auto
  with menu_ok menu_runs(1,2) a show ?thesis by simp
qed

text \<open>
  C7, as stated, fails for \<open>big_menu\<close>: the costs are above 0 and the budget is
  \<open>\<ge> 0\<close>, but \<open>greedy_algorithm\<close> returns no selection; the division \<open>10 ** 400 / 1\<close>
  raises OverflowError.
\<close>

theorem greedy_counterexample:
  "items_ok big_menu \<and> (0::int) \<le> 1 \<and> greedy_algorithm big_menu 1 = Inl OverflowError"
  using big_menu_ok big_menu_greedy by simp

text \<open>
  C7, amended. For a dictionary of items with costs above 0 and a budget \<open>\<ge> 0\<close>,
  \<open>dynamic_programming\<close> returns a selection. If the ratio \<open>calories / cost\<close> of every
  item is within the range of a float, \<open>greedy_algorithm\<close> returns a selection too,
  and by \<open>calculate_totals\<close> it costs at most the budget and has at most the calories
  of the selection of \<open>dynamic_programming\<close>; otherwise \<open>greedy_algorithm\<close> raises
  OverflowError.
\<close>

theorem greedy_not_better:
  assumes "items_ok its" and "0 \<le> budget"
  shows "\<exists>dp_result dp_cost dp_calories.
    dynamic_programming its budget = Inr dp_result \<and>
    calculate_totals its dp_result = Inr (dp_cost, dp_calories) \<and>
    (ratios_in_range its \<longrightarrow>
       (\<exists>greedy_result greedy_cost greedy_calories.
          greedy_algorithm its budget = Inr greedy_result \<and>
          calculate_totals its greedy_result = Inr (greedy_cost, greedy_calories) \<and>
          greedy_cost \<le> budget \<and> greedy_calories \<le> dp_calories)) \<and>
    (\<not> ratios_in_range its \<longrightarrow> greedy_algorithm its budget = Inl OverflowError)"
proof -
  from dynamic_programming_optimal [OF assms] obtain ds where
    d: "dynamic_programming its budget = Inr ds" "sel_ok its ds"
      "optimal_at its budget (calories_mset (selection_mset its ds))"
    by blast
  note dt = calculate_totals_selection [OF d(2)]
  have "\<exists>greedy_result greedy_cost greedy_calories.
      greedy_algorithm its budget = Inr greedy_result \<and>
      calculate_totals its greedy_result = Inr (greedy_cost, greedy_calories) \<and>
      greedy_cost \<le> budget \<and>
      greedy_calories \<le> calories_mset (selection_mset its ds)"
    if "ratios_in_range its"
  proof -
    from greedy_algorithm_affordable [OF assms that] obtain gs where
      g: "greedy_algorithm its budget = Inr gs" "sel_ok its gs"
        "cost_mset (selection_mset its gs) \<le> budget"
      by blast
    from g(3) have "affordable its budget (selection_mset its gs)"
      unfolding affordable_def using set_selection_mset by simp
    with d(3) have "calories_mset (selection_mset its gs) \<le>
        calories_mset (selection_mset its ds)"
      unfolding optimal_at_def by blast
    with g calculate_totals_selection [OF g(2)] show ?thesis
      by simp
  qed
  moreover have "greedy_algorithm its budget = Inl OverflowError"
    if "\<not> ratios_in_range its"
    using assms(1) that by (rule greedy_algorithm_overflow)
  ultimately show ?thesis
    using d(1) dt by blast
qed

theorem greedy_not_better_witness:
  "items_ok menu \<and> (0::int) \<le> 50 \<and> ratios_in_range menu \<and>
   greedy_algorithm menu 50 = Inr [(''cola'', 3)] \<and>
   dynamic_programming menu 50 = Inr [(''potato'', 2)] \<and>
   calculate_totals menu [(''cola'', 3)] = Inr (45, 660) \<and>
   calculate_totals menu [(''potato'', 2)] = Inr (50, 700) \<and>
   (45::int) \<le> 50 \<and> (660::int) \<le> 700"
proof -
  from greedy_not_better [OF menu_ok, of 50] menu_in_range menu_greedy menu_runs menu_ok
  show ?thesis
    by auto
qed

section \<open>Properties of task5.py\<close>

subsection \<open>Trees and their orders\<close>

lemma set_preorder: "set (preorder t) = nodes t"
  by (induction t) auto

lemma distinct_preorder: "distinct (preorder t) \<longleftrightarrow> unshared t"
  by (induction t) (auto simp: set_preorder)

lemma is_tree_root: "is_tree h p t \<Longrightarrow> p = root_of t"
  by (cases t) auto

lemma level_beyond: "height t \<le> d \<Longrightarrow> level t d = []"
proof (induction t d rule: level.induct)
  case (1 d)
  show ?case by simp
next
  case (2 l x r)
  then show ?case by simp
next
  case (3 l x r d)
  then show ?case by simp
qed

lemma roots_append: "roots (ts @ us) = roots ts @ roots us"
  by (induction ts rule: roots.induct) auto

lemma weight_of_simps [simp]:
  "weight_of [] = 0"
  "weight_of (t # ts) = 2 * size t + 1 + weight_of ts"
  "weight_of (ts @ us) = weight_of ts + weight_of us"
  by (simp_all add: weight_of_def)

lemma forest_level_simps [simp]:
  "forest_level [] d = []"
  "forest_level (t # ts) d = level t d @ forest_level ts d"
  "forest_level (ts @ us) d = forest_level ts d @ forest_level us d"
  by (simp_all add: forest_level_def)

lemma forest_order_Nil [simp]: "forest_order H [] = []"
  by (induction H) (simp_all add: forest_order_def)

lemma forest_level_Leaf: "forest_level (Leaf # ts) = forest_level ts"
  by (rule ext) simp

lemma forest_level_Br:
  "forest_level (Br l x r # ts) = (\<lambda>d. level (Br l x r) d @ forest_level ts d)"
  by (rule ext) simp

lemma forest_level_children:
  "forest_level (ts @ [l, r]) = (\<lambda>d. forest_level ts d @ level l d @ level r d)"
  by (rule ext) simp

lemma forest_order_Leaf [simp]: "forest_order H (Leaf # ts) = forest_order H ts"
  by (simp add: forest_order_def forest_level_Leaf)

text \<open>Two sequences of lists taken in turns, regrouped.\<close>

lemma concat_shift:
  "A 0 @ concat (map (\<lambda>k. B k @ A (Suc k)) [0..<n]) =
   concat (map (\<lambda>d. A d @ B d) [0..<n]) @ A n"
  by (induction n) simp_all

lemma forest_order_Br:
  assumes "height (Br l x r) \<le> H"
  shows "forest_order H (Br l x r # ts) = x # forest_order H (ts @ [l, r])"
proof -
  from assms obtain n where H: "H = Suc n" and n: "height l \<le> n" "height r \<le> n"
    by (cases H) auto
  let ?A = "forest_level ts" and ?B = "\<lambda>d. level l d @ level r d"
  have "[0..<Suc n] = 0 # map Suc [0..<n]"
    by (simp add: upt_conv_Cons map_Suc_upt del: upt_Suc)
  then have "forest_order H (Br l x r # ts) =
      x # ?A 0 @ concat (map (\<lambda>k. ?B k @ ?A (Suc k)) [0..<n])"
    unfolding forest_order_def H forest_level_Br by (simp add: comp_def del: upt_Suc)
  also have "\<dots> = x # concat (map (\<lambda>d. ?A d @ ?B d) [0..<n]) @ ?A n"
    using concat_shift [of ?A ?B n] by simp
  also have "\<dots> = x # concat (map (\<lambda>d. ?A d @ ?B d) [0..<Suc n])"
    using n by (simp add: level_beyond)
  also have "\<dots> = x # forest_order H (ts @ [l, r])"
    unfolding forest_order_def H forest_level_children by simp
  finally show ?thesis .
qed

lemma forest_order_single:
  "forest_order (height t) [t] = level_order t"
proof -
  have "forest_level [t] = level t" by (rule ext) simp
  then show ?thesis by (simp add: forest_order_def level_order_def)
qed

lemma mset_forest_order:
  "\<forall>t \<in> set ts. height t \<le> H \<Longrightarrow>
     mset (forest_order H ts) = (\<Sum>t \<in># mset ts. mset (preorder t))"
proof (induction "weight_of ts" arbitrary: ts rule: less_induct)
  case less
  show ?case
  proof (cases ts)
    case Nil
    then show ?thesis by simp
  next
    case (Cons t ts')
    show ?thesis
    proof (cases t)
      case Leaf
      with Cons less.prems less.hyps [of ts'] show ?thesis by simp
    next
      case (Br l x r)
      with Cons less.prems have h: "height (Br l x r) \<le> H"
        "\<forall>t \<in> set (ts' @ [l, r]). height t \<le> H"
        by auto
      have "weight_of (ts' @ [l, r]) < weight_of ts"
        using Cons Br by simp
      from less.hyps [OF this h(2)] forest_order_Br [OF h(1), of ts'] Cons Br
      show ?thesis by simp
    qed
  qed
qed

lemma mset_level_order: "mset (level_order t) = mset (preorder t)"
  using mset_forest_order [of "[t]" "height t"] by (simp add: forest_order_single)

subsection \<open>The loops\<close>

lemma dfs_loop_forest:
  "\<forall>t \<in> set ts. is_tree h (root_of t) t \<Longrightarrow>
     dfs_loop h (rev (roots ts)) acc = Some (acc @ concat (map preorder ts))"
proof (induction "weight_of ts" arbitrary: ts acc rule: less_induct)
  case less
  show ?case
  proof (cases ts)
    case Nil
    then show ?thesis by (simp add: dfs_loop.simps)
  next
    case (Cons t ts')
    show ?thesis
    proof (cases t)
      case Leaf
      with Cons less.prems less.hyps [of ts' acc] show ?thesis by simp
    next
      case (Br l x r)
      with Cons less.prems have t: "is_tree h (left h x) l" "is_tree h (right h x) r"
        and rest: "\<forall>t \<in> set ts'. is_tree h (root_of t) t"
        by simp_all
      from is_tree_root [OF t(1)] is_tree_root [OF t(2)]
      have ch: "left h x = root_of l" "right h x = root_of r" by simp_all
      have all: "\<forall>t \<in> set (l # r # ts'). is_tree h (root_of t) t"
        using t rest ch by simp
      have "weight_of (l # r # ts') < weight_of ts"
        using Cons Br by simp
      from less.hyps [OF this all, of "acc @ [x]"]
      have IH: "dfs_loop h (rev (roots (l # r # ts'))) (acc @ [x]) =
          Some (acc @ concat (map preorder ts))"
        using Cons Br by simp
      have push: "(case left h x of None \<Rightarrow>
            (case right h x of None \<Rightarrow> rev (roots ts') | Some b \<Rightarrow> rev (roots ts') @ [b])
          | Some a \<Rightarrow>
            (case right h x of None \<Rightarrow> rev (roots ts') | Some b \<Rightarrow> rev (roots ts') @ [b]) @ [a])
          = rev (roots (l # r # ts'))"
        unfolding ch by (cases l; cases r) simp_all
      have "dfs_loop h (rev (roots ts)) acc =
          dfs_loop h (rev (roots (l # r # ts'))) (acc @ [x])"
        unfolding push [symmetric] using Cons Br
        by (subst dfs_loop.simps) (simp add: Let_def)
      with IH show ?thesis by simp
    qed
  qed
qed

lemma bfs_loop_forest:
  "\<forall>t \<in> set ts. is_tree h (root_of t) t \<Longrightarrow> \<forall>t \<in> set ts. height t \<le> H \<Longrightarrow>
     bfs_loop h (roots ts) acc = Some (acc @ forest_order H ts)"
proof (induction "weight_of ts" arbitrary: ts acc rule: less_induct)
  case less
  show ?case
  proof (cases ts)
    case Nil
    then show ?thesis by (simp add: bfs_loop.simps)
  next
    case (Cons t ts')
    show ?thesis
    proof (cases t)
      case Leaf
      with Cons less.prems less.hyps [of ts' acc] show ?thesis by simp
    next
      case (Br l x r)
      with Cons less.prems have t: "is_tree h (left h x) l" "is_tree h (right h x) r"
        and rest: "\<forall>t \<in> set ts'. is_tree h (root_of t) t"
        and hs: "height (Br l x r) \<le> H" "\<forall>t \<in> set (ts' @ [l, r]). height t \<le> H"
        by auto
      from is_tree_root [OF t(1)] is_tree_root [OF t(2)]
      have ch: "left h x = root_of l" "right h x = root_of r" by simp_all
      have all: "\<forall>t \<in> set (ts' @ [l, r]). is_tree h (root_of t) t"
        using t rest ch by simp
      have "weight_of (ts' @ [l, r]) < weight_of ts"
        using Cons Br by simp
      from less.hyps [OF this all hs(2), of "acc @ [x]"] forest_order_Br [OF hs(1), of ts']
      have IH: "bfs_loop h (roots (ts' @ [l, r])) (acc @ [x]) =
          Some (acc @ forest_order H ts)"
        using Cons Br by simp
      have push: "(case right h x of None \<Rightarrow>
            (case left h x of None \<Rightarrow> roots ts' | Some a \<Rightarrow> roots ts' @ [a])
          | Some b \<Rightarrow>
            (case left h x of None \<Rightarrow> roots ts' | Some a \<Rightarrow> roots ts' @ [a]) @ [b])
          = roots (ts' @ [l, r])"
        unfolding ch by (cases l; cases r) (simp_all add: roots_append)
      have "bfs_loop h (roots ts) acc =
          bfs_loop h (roots (ts' @ [l, r])) (acc @ [x])"
        unfolding push [symmetric] using Cons Br
        by (subst bfs_loop.simps) (simp add: Let_def)
      with IH show ?thesis by simp
    qed
  qed
qed

subsection \<open>The claim about the traversals\<close>

text \<open>
  C10. Where what is reachable from \<open>root\<close> is a finite binary tree \<open>t\<close> in which no
  node is reachable twice, \<open>dfs_traversal\<close> returns the preorder of \<open>t\<close>, which holds
  the nodes of \<open>t\<close>, each once, and \<open>bfs_traversal\<close> returns the level order of \<open>t\<close>,
  which is a permutation of the preorder. For \<open>root = None\<close> both return \<open>[]\<close>.
\<close>

theorem traversals_correct:
  "(is_tree h p t \<and> unshared t \<longrightarrow>
      dfs_traversal h p = Some (preorder t) \<and> set (preorder t) = nodes t \<and>
      distinct (preorder t) \<and>
      bfs_traversal h p = Some (level_order t) \<and>
      mset (level_order t) = mset (preorder t)) \<and>
   dfs_traversal h' None = Some [] \<and> bfs_traversal h' None = Some []"
proof (intro conjI impI)
  assume a: "is_tree h p t \<and> unshared t"
  then have t: "is_tree h p t" by simp
  from a show "distinct (preorder t)" by (simp add: distinct_preorder)
  show "set (preorder t) = nodes t" by (rule set_preorder)
  show "mset (level_order t) = mset (preorder t)" by (rule mset_level_order)
  show "dfs_traversal h p = Some (preorder t)"
  proof (cases t)
    case Leaf
    with t show ?thesis by (simp add: dfs_traversal_def)
  next
    case (Br l x r)
    with t have "\<forall>u \<in> set [t]. is_tree h (root_of u) u" by simp
    from dfs_loop_forest [OF this, of "[]"] Br t show ?thesis
      by (simp add: dfs_traversal_def)
  qed
  show "bfs_traversal h p = Some (level_order t)"
  proof (cases t)
    case Leaf
    with t show ?thesis by (simp add: bfs_traversal_def level_order_def)
  next
    case (Br l x r)
    with t have "\<forall>u \<in> set [t]. is_tree h (root_of u) u"
      "\<forall>u \<in> set [t]. height u \<le> height t"
      by simp_all
    from bfs_loop_forest [OF this, of "[]"] Br t forest_order_single [of t] show ?thesis
      by (simp add: bfs_traversal_def)
  qed
next
  show "dfs_traversal h' None = Some []" by (simp add: dfs_traversal_def)
  show "bfs_traversal h' None = Some []" by (simp add: bfs_traversal_def)
qed

theorem traversals_correct_witness:
  "is_tree sample_tree (Some 0) sample_shape \<and> unshared sample_shape \<and>
   dfs_traversal sample_tree (Some 0) = Some [0, 1, 2, 3, 4, 5] \<and>
   bfs_traversal sample_tree (Some 0) = Some [0, 1, 4, 2, 3, 5] \<and>
   map (val sample_tree) [0, 1, 2, 3, 4, 5] = [0, 4, 5, 10, 1, 3] \<and>
   map (val sample_tree) [0, 1, 4, 2, 3, 5] = [0, 4, 1, 5, 10, 3]"
proof -
  have t: "is_tree sample_tree (Some 0) sample_shape"
    by (simp add: sample_tree_def sample_shape_def)
  have u: "unshared sample_shape"
    by (simp add: sample_shape_def)
  have p: "preorder sample_shape = [0, 1, 2, 3, 4, 5]"
    by (simp add: sample_shape_def)
  have l: "level_order sample_shape = [0, 1, 4, 2, 3, 5]"
    by (simp add: sample_shape_def level_order_def upt_conv_Cons)
  have v: "map (val sample_tree) [0, 1, 2, 3, 4, 5] = [0, 4, 5, 10, 1, 3]"
    "map (val sample_tree) [0, 1, 4, 2, 3, 5] = [0, 4, 1, 5, 10, 3]"
    by (simp_all add: sample_tree_def)
  from traversals_correct [of sample_tree "Some 0" sample_shape sample_tree] t u p l v
  show ?thesis by simp
qed

end
